theory Spec2Isabelle
  imports Main
begin

unbundle bit_operations_syntax

section \<open>Extendible hash table (src/container/hash/extendible_hash_table.cpp)\<close>

text \<open>
  The table is generic in the key type \<open>'k\<close> and the value type \<open>'v\<close>. \<open>std::hash<K>\<close> is a
  parameter \<open>h :: 'k \<Rightarrow> nat\<close> of every operation that hashes (a \<open>size_t\<close> value, read as a
  natural number; the only operations on it are bitwise \<open>&\<close> and \<open>|\<close>, which cannot wrap).

  Buckets are shared between directory slots through \<open>std::shared_ptr\<close>. The model keeps an
  explicit store: \<open>heap\<close> is the list of all buckets ever allocated, a pointer is an index into
  it, and a directory slot is \<open>Some a\<close> (the bucket at address \<open>a\<close>) or \<open>None\<close> (the empty
  \<open>shared_ptr\<close> that \<open>dir_.resize\<close> creates). \<open>std::make_shared\<close> appends to the store.

  What the source leaves to the C++ implementation is an explicit error value.
\<close>

datatype error =
    OutOfBounds   \<comment> \<open>unchecked \<open>dir_[i]\<close> beyond the vector: undefined behaviour, nothing is signalled\<close>
  | NullPointer   \<comment> \<open>\<open>->\<close> on an empty \<open>shared_ptr\<close>: undefined behaviour\<close>
  | IntOverflow   \<comment> \<open>\<open>1 << n\<close> on \<open>int\<close> with \<open>n\<close> negative or the result (or result minus one) not an \<open>int\<close>: undefined behaviour\<close>
  | LengthError   \<comment> \<open>\<open>std::length_error\<close> thrown by \<open>dir_.resize\<close>: the only failure that is signalled\<close>
  | OutOfFuel     \<comment> \<open>the recursion did not end within the given fuel\<close>

text \<open>A failure is signalled (fail fast) when it is an exception; undefined behaviour is not.\<close>

fun signalled :: "error \<Rightarrow> bool" where
  "signalled LengthError = True"
| "signalled _ = False"

subsection \<open>Bucket\<close>

record ('k, 'v) bucket =
  b_size :: nat
  b_depth :: nat
  b_list :: "('k \<times> 'v) list"

text \<open>\<open>Bucket::Bucket(size_t array_size, int depth)\<close>.\<close>

definition Bucket :: "nat \<Rightarrow> nat \<Rightarrow> ('k, 'v) bucket" where
  "Bucket array_size depth = \<lparr>b_size = array_size, b_depth = depth, b_list = []\<rparr>"

text \<open>
  Modelled from the spec: the inline members of \<open>Bucket\<close> declared in
  \<open>extendible_hash_table.h\<close>, which is not among the sources. \<open>is_full\<close> is
  \<open>len(entries) == capacity\<close>; the depth accessors read the depth and increment it by exactly
  one; \<open>GetItems\<close> hands out the entries.
\<close>

definition IsFull :: "('k, 'v) bucket \<Rightarrow> bool" where
  "IsFull b = (length (b_list b) = b_size b)"

definition GetDepth :: "('k, 'v) bucket \<Rightarrow> nat" where
  "GetDepth b = b_depth b"

definition IncrementDepth :: "('k, 'v) bucket \<Rightarrow> ('k, 'v) bucket" where
  "IncrementDepth b = b\<lparr>b_depth := b_depth b + 1\<rparr>"

definition GetItems :: "('k, 'v) bucket \<Rightarrow> ('k \<times> 'v) list" where
  "GetItems b = b_list b"

text \<open>
  \<open>Bucket::Find(key, value)\<close>: the out parameter \<open>value\<close> is part of the result, next to the
  returned flag.
\<close>

fun Find_scan :: "('k \<times> 'v) list \<Rightarrow> 'k \<Rightarrow> 'v \<Rightarrow> bool \<times> 'v" where
  "Find_scan [] key value = (False, value)"
| "Find_scan ((k, v) # rest) key value =
     (if k = key then (True, v) else Find_scan rest key value)"

definition Bucket_Find :: "('k, 'v) bucket \<Rightarrow> 'k \<Rightarrow> 'v \<Rightarrow> bool \<times> 'v" where
  "Bucket_Find b key value = Find_scan (b_list b) key value"

text \<open>\<open>Bucket::Remove(key)\<close>: erases the first entry with the key.\<close>

fun Remove_scan :: "('k \<times> 'v) list \<Rightarrow> 'k \<Rightarrow> bool \<times> ('k \<times> 'v) list" where
  "Remove_scan [] key = (False, [])"
| "Remove_scan ((k, v) # rest) key =
     (if k = key then (True, rest)
      else (fst (Remove_scan rest key), (k, v) # snd (Remove_scan rest key)))"

definition Bucket_Remove :: "('k, 'v) bucket \<Rightarrow> 'k \<Rightarrow> bool \<times> ('k, 'v) bucket" where
  "Bucket_Remove b key =
     (fst (Remove_scan (b_list b) key), b\<lparr>b_list := snd (Remove_scan (b_list b) key)\<rparr>)"

text \<open>
  \<open>Bucket::Insert(key, value)\<close>: the fullness test comes first; then the scan that overwrites
  the first entry with the key, and \<open>emplace_back\<close> when the scan finds none.
\<close>

fun Insert_scan :: "('k \<times> 'v) list \<Rightarrow> 'k \<Rightarrow> 'v \<Rightarrow> ('k \<times> 'v) list" where
  "Insert_scan [] key value = [(key, value)]"
| "Insert_scan ((k, v) # rest) key value =
     (if k = key then (k, value) # rest else (k, v) # Insert_scan rest key value)"

definition Bucket_Insert :: "('k, 'v) bucket \<Rightarrow> 'k \<Rightarrow> 'v \<Rightarrow> bool \<times> ('k, 'v) bucket" where
  "Bucket_Insert b key value =
     (if IsFull b then (False, b)
      else (True, b\<lparr>b_list := Insert_scan (b_list b) key value\<rparr>))"

subsection \<open>Table\<close>

record ('k, 'v) table =
  global_depth :: nat
  bucket_size :: nat
  num_buckets :: nat
  dir :: "nat option list"
  heap :: "('k, 'v) bucket list"

text \<open>\<open>std::make_shared<Bucket>(...)\<close>: a new address, the store extended.\<close>

definition make_shared :: "('k, 'v) table \<Rightarrow> ('k, 'v) bucket \<Rightarrow> nat \<times> ('k, 'v) table" where
  "make_shared t b = (length (heap t), t\<lparr>heap := heap t @ [b]\<rparr>)"

text \<open>
  The constructor: the loop runs once (\<open>num_buckets_\<close> is 1) and pushes a bucket of the
  default depth. Modelled from the spec: the default argument \<open>depth = 0\<close> of the \<open>Bucket\<close>
  constructor is declared in the absent header; the spec has the initial bucket at depth 0.
\<close>

definition ExtendibleHashTable :: "nat \<Rightarrow> ('k, 'v) table" where
  "ExtendibleHashTable n =
     \<lparr>global_depth = 0, bucket_size = n, num_buckets = 1,
      dir = [Some 0], heap = [Bucket n 0]\<rparr>"

text \<open>\<open>1 << n\<close> in \<open>int\<close> arithmetic (32 bits), where the source goes on to use the value as a mask.\<close>

definition shl1 :: "nat \<Rightarrow> error + nat" where
  "shl1 n = (if n < 31 then Inr (push_bit n 1) else Inl IntOverflow)"

text \<open>\<open>IndexOf\<close>: \<open>int mask = (1 << global_depth_) - 1; return hash(key) & mask\<close>.\<close>

definition IndexOf :: "('k \<Rightarrow> nat) \<Rightarrow> ('k, 'v) table \<Rightarrow> 'k \<Rightarrow> error + nat" where
  "IndexOf h t key =
     (case shl1 (global_depth t) of
        Inl e \<Rightarrow> Inl e
      | Inr p \<Rightarrow> Inr (h key AND (p - 1)))"

text \<open>
  \<open>dir_[i]->\<close>: the address of the bucket behind slot \<open>i\<close>. The vector access is unchecked.
  An address outside the store cannot arise from \<open>make_shared\<close>; it is read as a pointer
  that cannot be followed.
\<close>

definition at_slot :: "('k, 'v) table \<Rightarrow> nat \<Rightarrow> error + nat" where
  "at_slot t i =
     (if i < length (dir t) then
        (case dir t ! i of
           None \<Rightarrow> Inl NullPointer
         | Some a \<Rightarrow> if a < length (heap t) then Inr a else Inl NullPointer)
      else Inl OutOfBounds)"

definition GetGlobalDepth :: "('k, 'v) table \<Rightarrow> nat" where
  "GetGlobalDepth t = global_depth t"

text \<open>\<open>GetLocalDepth(int dir_index)\<close>: a negative index converts to a huge \<open>size_t\<close>.\<close>

definition GetLocalDepth :: "('k, 'v) table \<Rightarrow> int \<Rightarrow> error + nat" where
  "GetLocalDepth t dir_index =
     (if dir_index < 0 then Inl OutOfBounds
      else (case at_slot t (nat dir_index) of
              Inl e \<Rightarrow> Inl e
            | Inr a \<Rightarrow> Inr (GetDepth (heap t ! a))))"

definition GetNumBuckets :: "('k, 'v) table \<Rightarrow> nat" where
  "GetNumBuckets t = num_buckets t"

text \<open>\<open>Find(key, value)\<close>: the flag and the out parameter.\<close>

definition Find :: "('k \<Rightarrow> nat) \<Rightarrow> ('k, 'v) table \<Rightarrow> 'k \<Rightarrow> 'v \<Rightarrow> error + (bool \<times> 'v)" where
  "Find h t key value =
     (case IndexOf h t key of
        Inl e \<Rightarrow> Inl e
      | Inr bucket_index \<Rightarrow>
          (case at_slot t bucket_index of
             Inl e \<Rightarrow> Inl e
           | Inr a \<Rightarrow> Inr (Bucket_Find (heap t ! a) key value)))"

definition Remove :: "('k \<Rightarrow> nat) \<Rightarrow> ('k, 'v) table \<Rightarrow> 'k \<Rightarrow> error + (bool \<times> ('k, 'v) table)" where
  "Remove h t key =
     (case IndexOf h t key of
        Inl e \<Rightarrow> Inl e
      | Inr bucket_index \<Rightarrow>
          (case at_slot t bucket_index of
             Inl e \<Rightarrow> Inl e
           | Inr a \<Rightarrow>
               Inr (fst (Bucket_Remove (heap t ! a) key),
                    t\<lparr>heap := (heap t)[a := snd (Bucket_Remove (heap t ! a) key)]\<rparr>)))"

text \<open>
  The second loop of \<open>RedistributeBucket\<close>: each selected pair is inserted into the bucket at
  \<open>dst\<close> and removed from the bucket at \<open>src\<close>, in this order, on the same store.
\<close>

fun move_pairs :: "('k \<times> 'v) list \<Rightarrow> nat \<Rightarrow> nat \<Rightarrow> ('k, 'v) bucket list \<Rightarrow> ('k, 'v) bucket list" where
  "move_pairs [] src dst hp = hp"
| "move_pairs ((k, v) # rest) src dst hp =
     (let hp1 = hp[dst := snd (Bucket_Insert (hp ! dst) k v)];
          hp2 = hp1[src := snd (Bucket_Remove (hp1 ! src) k)]
      in move_pairs rest src dst hp2)"

text \<open>
  \<open>RedistributeBucket(src_bucket, dst_bucket, index)\<close>. \<open>src_bucket\<close> is a reference to a
  directory slot (both callers pass \<open>dir_[bucket_index]\<close>), so the model takes the slot
  \<open>src_slot\<close> and follows it each time the source does: once for the depth, before
  \<open>dir_[index|mask]\<close> is overwritten, and again for the items, after. \<open>dst_bucket\<close> refers to
  the caller's local pointer: an address.
\<close>

definition RedistributeBucket ::
  "('k \<Rightarrow> nat) \<Rightarrow> ('k, 'v) table \<Rightarrow> nat \<Rightarrow> nat \<Rightarrow> nat \<Rightarrow> error + ('k, 'v) table" where
  "RedistributeBucket h t src_slot dst index =
     (case at_slot t src_slot of
        Inl e \<Rightarrow> Inl e
      | Inr a0 \<Rightarrow>
          if GetDepth (heap t ! a0) = 0 then Inl IntOverflow
          else
            (case shl1 (GetDepth (heap t ! a0) - 1) of
               Inl e \<Rightarrow> Inl e
             | Inr msk \<Rightarrow>
                 if \<not> (index OR msk) < length (dir t) then Inl OutOfBounds
                 else
                   (let t1 = t\<lparr>dir := (dir t)[(index OR msk) := Some dst]\<rparr> in
                    case at_slot t1 src_slot of
                      Inl e \<Rightarrow> Inl e
                    | Inr a1 \<Rightarrow>
                        (let pairs_to_distribute =
                               filter (\<lambda>(k, v). h k AND msk \<noteq> 0) (GetItems (heap t1 ! a1))
                         in Inr (t1\<lparr>heap := move_pairs pairs_to_distribute a1 dst (heap t1)\<rparr>)))))"

text \<open>\<open>dir_.resize(n)\<close>: cut or filled up with empty pointers.\<close>

definition resize :: "nat \<Rightarrow> nat option list \<Rightarrow> nat option list" where
  "resize n xs = take n xs @ replicate (n - length xs) None"

text \<open>
  \<open>Insert(key, value)\<close>, with the \<open>for\<close> loop of the branch that grows the directory as
  \<open>Insert_grow\<close>. The recursion is not structural, so both take fuel: one unit for each call
  of \<open>Insert\<close> and each turn of the loop. \<open>mask\<close> (here \<open>msk\<close>) and \<open>bucket_index\<close> are locals of the frame
  that runs the loop; \<open>global_depth_\<close> and \<open>dir_.size()\<close> are read from the current state
  at each turn.

  \<open>dir_.resize(1 << global_depth_)\<close>: with depth 31 the argument is \<open>INT_MIN\<close>, converted to a
  \<open>size_t\<close> beyond \<open>max_size()\<close>, and \<open>resize\<close> throws; beyond 31 the shift is undefined.
\<close>

fun Insert :: "nat \<Rightarrow> ('k \<Rightarrow> nat) \<Rightarrow> 'k \<Rightarrow> 'v \<Rightarrow> ('k, 'v) table \<Rightarrow> error + ('k, 'v) table"
and Insert_grow ::
  "nat \<Rightarrow> ('k \<Rightarrow> nat) \<Rightarrow> 'k \<Rightarrow> 'v \<Rightarrow> nat \<Rightarrow> nat \<Rightarrow> nat \<Rightarrow> ('k, 'v) table \<Rightarrow> error + ('k, 'v) table"
where
  "Insert 0 h key value t = Inl OutOfFuel"
| "Insert (Suc n) h key value t =
     (case IndexOf h t key of
        Inl e \<Rightarrow> Inl e
      | Inr bucket_index \<Rightarrow>
          (case at_slot t bucket_index of
             Inl e \<Rightarrow> Inl e
           | Inr a \<Rightarrow>
               if fst (Bucket_Find (heap t ! a) key value) then Inr t
               else if \<not> IsFull (heap t ! a) then
                 Inr (t\<lparr>heap := (heap t)[a := snd (Bucket_Insert (heap t ! a) key value)]\<rparr>)
               else if GetDepth (heap t ! a) = GetGlobalDepth t then
                 (let t1 = t\<lparr>global_depth := global_depth t + 1\<rparr>;
                      t2 = t1\<lparr>heap := (heap t1)[a := IncrementDepth (heap t1 ! a)]\<rparr>
                  in if global_depth t2 = 31 then Inl LengthError
                     else
                       (case shl1 (global_depth t2) of
                          Inl e \<Rightarrow> Inl e
                        | Inr new_size \<Rightarrow>
                            (let t3 = t2\<lparr>dir := resize new_size (dir t2)\<rparr> in
                             case shl1 (global_depth t3 - 1) of
                               Inl e \<Rightarrow> Inl e
                             | Inr half \<Rightarrow>
                                 Insert_grow n h key value (half - 1) bucket_index half t3)))
               else
                 (let t1 = t\<lparr>heap := (heap t)[a := IncrementDepth (heap t ! a)]\<rparr>;
                      (split_bucket, t2) =
                         make_shared t1 (Bucket (bucket_size t1) (GetDepth (heap t1 ! a)))
                  in case RedistributeBucket h t2 bucket_index split_bucket bucket_index of
                       Inl e \<Rightarrow> Inl e
                     | Inr t3 \<Rightarrow> Insert n h key value t3)))"
| "Insert_grow 0 h key value msk bucket_index i t = Inl OutOfFuel"
| "Insert_grow (Suc n) h key value msk bucket_index i t =
     (if i < length (dir t) then
        (if (i AND msk) = bucket_index then
           (case at_slot t bucket_index of
              Inl e \<Rightarrow> Inl e
            | Inr a \<Rightarrow>
                (let (split_bucket, t1) =
                        make_shared t (Bucket (bucket_size t) (GetDepth (heap t ! a)))
                 in case RedistributeBucket h t1 bucket_index split_bucket bucket_index of
                      Inl e \<Rightarrow> Inl e
                    | Inr t2 \<Rightarrow>
                        (case Insert n h key value t2 of
                           Inl e \<Rightarrow> Inl e
                         | Inr t3 \<Rightarrow> Insert_grow n h key value msk bucket_index (i + 1) t3)))
         else
           Insert_grow n h key value msk bucket_index (i + 1)
             (t\<lparr>dir := (dir t)[i := dir t ! (i AND msk)]\<rparr>))
      else Inr t)"

subsection \<open>Callers and properties\<close>

text \<open>A caller that inserts a list of pairs in order, each call with the same fuel.\<close>

fun Insert_all ::
  "nat \<Rightarrow> ('k \<Rightarrow> nat) \<Rightarrow> ('k \<times> 'v) list \<Rightarrow> ('k, 'v) table \<Rightarrow> error + ('k, 'v) table" where
  "Insert_all n h [] t = Inr t"
| "Insert_all n h ((k, v) # rest) t =
     (case Insert n h k v t of Inl e \<Rightarrow> Inl e | Inr t' \<Rightarrow> Insert_all n h rest t')"

text \<open>The hash of the examples: \<open>std::hash<int>\<close> as the identity.\<close>

definition hash_id :: "nat \<Rightarrow> nat" where
  "hash_id k = k"

text \<open>The number of distinct buckets that the directory references.\<close>

definition distinct_buckets :: "('k, 'v) table \<Rightarrow> nat" where
  "distinct_buckets t = length (remdups (dir t))"

text \<open>
  The aliasing invariant of the specification: slot \<open>i\<close> references a bucket, and every slot
  \<open>j\<close> that agrees with \<open>i\<close> on the low \<open>depth\<close> bits of that bucket references the same one.
\<close>

definition aliasing_at :: "('k, 'v) table \<Rightarrow> nat \<Rightarrow> nat \<Rightarrow> bool" where
  "aliasing_at t i j =
     (case dir t ! i of
        None \<Rightarrow> False
      | Some a \<Rightarrow>
          if take_bit (b_depth (heap t ! a)) j = take_bit (b_depth (heap t ! a)) i
          then dir t ! j = Some a else True)"

definition aliasing_ok :: "('k, 'v) table \<Rightarrow> bool" where
  "aliasing_ok t =
     list_all (\<lambda>i. list_all (\<lambda>j. aliasing_at t i j) [0..<length (dir t)]) [0..<length (dir t)]"

text \<open>
  The pieces of \<open>Insert\<close> between its recursive calls, named for the proofs: the growth of
  the directory (lines 97 to 99), the split inside the loop (lines 103 and 104) and the split
  of a bucket below the global depth (lines 111 to 113). \<open>a\<close> is the address behind
  \<open>dir_[bucket_index]\<close>.
\<close>

definition grow_directory :: "('k, 'v) table \<Rightarrow> nat \<Rightarrow> ('k, 'v) table" where
  "grow_directory t a =
     t\<lparr>global_depth := global_depth t + 1,
       heap := (heap t)[a := IncrementDepth (heap t ! a)],
       dir := resize (push_bit (global_depth t + 1) 1) (dir t)\<rparr>"

definition split_grown :: "('k \<Rightarrow> nat) \<Rightarrow> ('k, 'v) table \<Rightarrow> nat \<Rightarrow> nat \<Rightarrow> error + ('k, 'v) table" where
  "split_grown h t bucket_index a =
     RedistributeBucket h
       (t\<lparr>heap := heap t @ [Bucket (bucket_size t) (GetDepth (heap t ! a))]\<rparr>)
       bucket_index (length (heap t)) bucket_index"

definition split_below :: "('k \<Rightarrow> nat) \<Rightarrow> ('k, 'v) table \<Rightarrow> nat \<Rightarrow> nat \<Rightarrow> error + ('k, 'v) table" where
  "split_below h t bucket_index a =
     split_grown h (t\<lparr>heap := (heap t)[a := IncrementDepth (heap t ! a)]\<rparr>) bucket_index a"

text \<open>The capacity invariant: every bucket of the store has the table's capacity and no more entries.\<close>

definition bucket_ok :: "nat \<Rightarrow> ('k, 'v) bucket \<Rightarrow> bool" where
  "bucket_ok n b = (b_size b = n \<and> length (b_list b) \<le> n)"

definition cap_ok :: "('k, 'v) table \<Rightarrow> bool" where
  "cap_ok t = (\<forall>b \<in> set (heap t). b_size b = bucket_size t \<and> length (b_list b) \<le> b_size b)"

text \<open>The directory has \<open>2 ^ global_depth\<close> slots, and the depth is one that \<open>int\<close> can shift by.\<close>

definition dir_ok :: "('k, 'v) table \<Rightarrow> bool" where
  "dir_ok t = (global_depth t < 31 \<and> length (dir t) = 2 ^ global_depth t)"

text \<open>The states of a table's lifetime: constructed, then any number of inserts and removes that return.\<close>

inductive reachable :: "('k \<Rightarrow> nat) \<Rightarrow> ('k, 'v) table \<Rightarrow> bool" for h :: "'k \<Rightarrow> nat" where
  reachable_new: "reachable h (ExtendibleHashTable n)"
| reachable_Insert: "reachable h t \<Longrightarrow> Insert fuel h key value t = Inr t' \<Longrightarrow> reachable h t'"
| reachable_Remove: "reachable h t \<Longrightarrow> Remove h t key = Inr (r, t') \<Longrightarrow> reachable h t'"


text \<open>
  Well-formed tables: the directory has \<open>2 ^ global_depth\<close> slots, every slot references
  a bucket of the store, and no local depth exceeds the global depth. \<open>key_slots_ok x\<close> asks
  the same of the slots \<open>take_bit g x\<close> only, the slots that a key of hash \<open>x\<close> addresses at
  the depths \<open>g\<close> up to the global depth.
\<close>

definition slot_depth :: "('k, 'v) table \<Rightarrow> nat \<Rightarrow> nat" where
  "slot_depth t j = (case at_slot t j of Inl e \<Rightarrow> 0 | Inr a \<Rightarrow> b_depth (heap t ! a))"

definition slot_ok :: "('k, 'v) table \<Rightarrow> nat \<Rightarrow> bool" where
  "slot_ok t j = (case at_slot t j of Inl e \<Rightarrow> False | Inr a \<Rightarrow> b_depth (heap t ! a) \<le> global_depth t)"

definition key_slots_ok :: "nat \<Rightarrow> ('k, 'v) table \<Rightarrow> bool" where
  "key_slots_ok x t =
     (global_depth t < 31 \<and> length (dir t) = 2 ^ global_depth t \<and>
      (\<forall>g \<le> global_depth t. slot_ok t (take_bit g x)))"

definition well_formed :: "('k, 'v) table \<Rightarrow> bool" where
  "well_formed t =
     (global_depth t < 31 \<and> length (dir t) = 2 ^ global_depth t \<and>
      (\<forall>j < length (dir t). slot_ok t j))"

text \<open>
  The outcome of \<open>Insert\<close> on such a table: \<open>std::length_error\<close>, or a table on which the
  key's slots are in order again, no depth having gone down. \<open>loop_inv\<close> is the invariant
  of the loop that grows the directory, for the frame that started at global depth \<open>g0\<close>:
  until the loop has passed slot \<open>take_bit g0 x + 2 ^ g0\<close>, the one slot of the new half that
  the key may address, that slot is still empty.
\<close>

definition returns_or_throws ::
  "nat \<Rightarrow> ('k, 'v) table \<Rightarrow> nat \<Rightarrow> error + ('k, 'v) table \<Rightarrow> bool" where
  "returns_or_throws x t g r =
     (r = Inl LengthError \<or>
      (\<exists>t'. r = Inr t' \<and> key_slots_ok x t' \<and> global_depth t \<le> global_depth t' \<and>
            (\<forall>g' \<le> g. slot_depth t (take_bit g' x) \<le> slot_depth t' (take_bit g' x))))"

definition loop_inv :: "nat \<Rightarrow> nat \<Rightarrow> nat \<Rightarrow> ('k, 'v) table \<Rightarrow> bool" where
  "loop_inv x g0 i t =
     (g0 < global_depth t \<and> global_depth t < 31 \<and> length (dir t) = 2 ^ global_depth t \<and>
      2 ^ g0 \<le> i \<and> slot_ok t (take_bit g0 x) \<and> g0 + 1 \<le> slot_depth t (take_bit g0 x) \<and>
      (if i \<le> take_bit g0 x + 2 ^ g0
       then global_depth t = g0 + 1 \<and> slot_depth t (take_bit g0 x) = g0 + 1 \<and>
            (\<forall>g \<le> g0. slot_ok t (take_bit g x))
       else key_slots_ok x t))"

text \<open>
  Every slot that holds a pointer holds the address of a bucket whose local depth is at most
  the global depth. This holds in every state that \<open>Insert\<close> goes through, also while the new
  half of a grown directory is still empty.
\<close>

definition dir_entries_ok :: "('k, 'v) table \<Rightarrow> bool" where
  "dir_entries_ok t =
     (\<forall>j < length (dir t). case dir t ! j of
        None \<Rightarrow> True
      | Some a \<Rightarrow> a < length (heap t) \<and> b_depth (heap t ! a) \<le> global_depth t)"

text \<open>
  Where the empty slots of a table \<open>t'\<close> come from: each has the low bits of a slot that was
  empty in \<open>t\<close>. \<open>loop_none\<close> is the same for the loop that grows the directory, for the frame
  that started at global depth \<open>g0\<close> and the slots \<open>q\<close> that were empty then: a slot may also be
  empty because the loop has not come to it yet, and, once an inner call may have doubled
  the directory, only if its low \<open>g0 + 1\<close> bits lie past the slot that received the sibling.
\<close>

definition none_from :: "('k, 'v) table \<Rightarrow> ('k, 'v) table \<Rightarrow> bool" where
  "none_from t t' =
     (\<forall>j < length (dir t'). dir t' ! j = None \<longrightarrow> dir t ! take_bit (global_depth t) j = None)"

definition loop_none :: "(nat \<Rightarrow> bool) \<Rightarrow> nat \<Rightarrow> nat \<Rightarrow> nat \<Rightarrow> ('k, 'v) table \<Rightarrow> bool" where
  "loop_none q x g0 i t =
     (\<forall>j < length (dir t). dir t ! j = None \<longrightarrow>
        q (take_bit g0 j) \<or>
        (i \<le> j \<and> (i \<le> take_bit g0 x + 2 ^ g0 \<or> take_bit g0 x + 2 ^ g0 < take_bit (g0 + 1) j)))"

section \<open>The steps of Insert\<close>

lemma Insert_Suc:
  "Insert (Suc n) h key value t =
     (case IndexOf h t key of
        Inl e \<Rightarrow> Inl e
      | Inr bucket_index \<Rightarrow>
          (case at_slot t bucket_index of
             Inl e \<Rightarrow> Inl e
           | Inr a \<Rightarrow>
               if fst (Bucket_Find (heap t ! a) key value) then Inr t
               else if \<not> IsFull (heap t ! a) then
                 Inr (t\<lparr>heap := (heap t)[a := snd (Bucket_Insert (heap t ! a) key value)]\<rparr>)
               else if b_depth (heap t ! a) = global_depth t then
                 (if global_depth t + 1 = 31 then Inl LengthError
                  else Insert_grow n h key value (push_bit (global_depth t) 1 - 1) bucket_index
                         (push_bit (global_depth t) 1) (grow_directory t a))
               else
                 (case split_below h t bucket_index a of
                    Inl e \<Rightarrow> Inl e
                  | Inr t3 \<Rightarrow> Insert n h key value t3)))"
  by (auto simp: IndexOf_def shl1_def Let_def grow_directory_def split_below_def split_grown_def
      make_shared_def GetDepth_def GetGlobalDepth_def at_slot_def
      split: sum.splits if_splits option.splits)

lemma Insert_grow_Suc:
  "Insert_grow (Suc n) h key value msk bucket_index i t =
     (if i < length (dir t) then
        (if (i AND msk) = bucket_index then
           (case at_slot t bucket_index of
              Inl e \<Rightarrow> Inl e
            | Inr a \<Rightarrow>
                (case split_grown h t bucket_index a of
                   Inl e \<Rightarrow> Inl e
                 | Inr t2 \<Rightarrow>
                     (case Insert n h key value t2 of
                        Inl e \<Rightarrow> Inl e
                      | Inr t3 \<Rightarrow> Insert_grow n h key value msk bucket_index (i + 1) t3)))
         else
           Insert_grow n h key value msk bucket_index (i + 1)
             (t\<lparr>dir := (dir t)[i := dir t ! (i AND msk)]\<rparr>))
      else Inr t)"
  by (simp add: split_grown_def make_shared_def split: sum.splits)


lemma at_slot_Inr:
  "at_slot t i = Inr a \<Longrightarrow> i < length (dir t) \<and> dir t ! i = Some a \<and> a < length (heap t)"
  by (auto simp: at_slot_def split: if_splits option.splits)


lemma Insert_0 [simp]: "Insert 0 h key value t = Inl OutOfFuel"
  by simp

lemma Insert_grow_0 [simp]: "Insert_grow 0 h key value msk bi i t = Inl OutOfFuel"
  by simp

declare Insert.simps [simp del] Insert_grow.simps [simp del]

lemma and_nat_le: "(i::nat) AND m \<le> i"
proof -
  have "int (i AND m) \<le> int i" by (simp add: of_nat_and_eq)
  then show ?thesis by simp
qed

lemma IndexOf_Inr: "IndexOf h t key = Inr bi \<Longrightarrow> global_depth t < 31"
  by (auto simp: IndexOf_def shl1_def split: if_splits)

lemma Insert_invariant:
  fixes I :: "('k, 'v) table \<Rightarrow> bool"
  assumes ins: "\<And>t a. I t \<Longrightarrow> a < length (heap t) \<Longrightarrow>
                  I (t\<lparr>heap := (heap t)[a := snd (Bucket_Insert (heap t ! a) key value)]\<rparr>)"
    and grow: "\<And>t a. I t \<Longrightarrow> a < length (heap t) \<Longrightarrow> global_depth t < 30 \<Longrightarrow> I (grow_directory t a)"
    and below: "\<And>t bi a t'. I t \<Longrightarrow> at_slot t bi = Inr a \<Longrightarrow>
                  b_depth (heap t ! a) \<noteq> global_depth t \<Longrightarrow> split_below h t bi a = Inr t' \<Longrightarrow> I t'"
    and grown: "\<And>t bi a t'. I t \<Longrightarrow> at_slot t bi = Inr a \<Longrightarrow>
                  split_grown h t bi a = Inr t' \<Longrightarrow> I t'"
    and copy: "\<And>t i j. I t \<Longrightarrow> i < length (dir t) \<Longrightarrow> j \<le> i \<Longrightarrow>
                  I (t\<lparr>dir := (dir t)[i := dir t ! j]\<rparr>)"
  shows "(\<forall>t t'. I t \<longrightarrow> Insert n h key value t = Inr t' \<longrightarrow> I t') \<and>
         (\<forall>t t' msk bi i. I t \<longrightarrow> Insert_grow n h key value msk bi i t = Inr t' \<longrightarrow> I t')"
proof (induction n)
  case 0
  show ?case by simp
next
  case (Suc n)
  note IH1 = Suc [THEN conjunct1, rule_format]
  note IH2 = Suc [THEN conjunct2, rule_format]
  have A: "I t'" if It: "I t" and run: "Insert (Suc n) h key value t = Inr t'" for t t'
  proof -
    from run obtain bi a where bi: "IndexOf h t key = Inr bi" and a: "at_slot t bi = Inr a"
      by (auto simp: Insert_Suc split: sum.splits)
    have al: "a < length (heap t)" using a by (simp add: at_slot_Inr)
    have gd: "global_depth t < 31" using bi by (rule IndexOf_Inr)
    let ?b = "heap t ! a"
    consider (found) "fst (Bucket_Find ?b key value)"
      | (room) "\<not> fst (Bucket_Find ?b key value)" "\<not> IsFull ?b"
      | (grows) "\<not> fst (Bucket_Find ?b key value)" "IsFull ?b" "b_depth ?b = global_depth t"
      | (splits) "\<not> fst (Bucket_Find ?b key value)" "IsFull ?b" "b_depth ?b \<noteq> global_depth t"
      by blast
    then show ?thesis
    proof cases
      case found
      then have "t' = t" using run by (simp add: Insert_Suc bi a)
      then show ?thesis using It by simp
    next
      case room
      then have "t' = t\<lparr>heap := (heap t)[a := snd (Bucket_Insert ?b key value)]\<rparr>"
        using run by (simp add: Insert_Suc bi a)
      then show ?thesis using ins [OF It al] by simp
    next
      case grows
      then have ne: "global_depth t + 1 \<noteq> 31" using run by (auto simp: Insert_Suc bi a)
      then have lt: "global_depth t < 30" using gd by simp
      have "Insert_grow n h key value (push_bit (global_depth t) 1 - 1) bi
              (push_bit (global_depth t) 1) (grow_directory t a) = Inr t'"
        using run grows ne by (simp add: Insert_Suc bi a)
      then show ?thesis using IH2 [OF grow [OF It al lt]] by blast
    next
      case splits
      then obtain t3 where t3: "split_below h t bi a = Inr t3" and r: "Insert n h key value t3 = Inr t'"
        using run by (auto simp: Insert_Suc bi a split: sum.splits)
      show ?thesis using IH1 [OF below [OF It a splits(3) t3] r] .
    qed
  qed
  have B: "I t'" if It: "I t" and run: "Insert_grow (Suc n) h key value msk bi i t = Inr t'"
    for t t' msk bi i
  proof (cases "i < length (dir t)")
    case False
    then show ?thesis using It run by (simp add: Insert_grow_Suc)
  next
    case True
    show ?thesis
    proof (cases "(i AND msk) = bi")
      case False
      then have "Insert_grow n h key value msk bi (i + 1)
                   (t\<lparr>dir := (dir t)[i := dir t ! (i AND msk)]\<rparr>) = Inr t'"
        using run True by (simp add: Insert_grow_Suc)
      then show ?thesis using IH2 [OF copy [OF It True and_nat_le]] by blast
    next
      case eq: True
      then obtain a t2 t3 where a: "at_slot t bi = Inr a" and t2: "split_grown h t bi a = Inr t2"
        and t3: "Insert n h key value t2 = Inr t3"
        and r: "Insert_grow n h key value msk bi (i + 1) t3 = Inr t'"
        using run True by (auto simp: Insert_grow_Suc split: sum.splits)
      show ?thesis using IH2 [OF IH1 [OF grown [OF It a t2] t3] r] .
    qed
  qed
  show ?case using A B by blast
qed


section \<open>Bucket operations\<close>

lemma Find_scan_miss: "key \<notin> fst ` set l \<Longrightarrow> Find_scan l key value = (False, value)"
  by (induction l) auto

lemma Find_scan_hit: "key \<in> fst ` set l \<Longrightarrow> fst (Find_scan l key value)"
  by (induction l) force+

lemma Find_scan_fst: "fst (Find_scan l key value) = (key \<in> fst ` set l)"
  using Find_scan_miss [of key l "value"] Find_scan_hit [of key l "value"] by fastforce

lemma Find_scan_unassigned: "\<not> fst (Find_scan l key value) \<Longrightarrow> snd (Find_scan l key value) = value"
  by (induction l) auto

text \<open>
  C10. A key that the bucket does not hold: \<open>Bucket::Find\<close> returns false and the out
  parameter keeps the value it came with; so does the table's \<open>Find\<close>, which hands the
  parameter through to the bucket it addresses. Whenever the flag is false the parameter is
  unassigned.
\<close>

theorem Find_miss_keeps_out_parameter:
  "(key \<notin> fst ` set (b_list b) \<longrightarrow> Bucket_Find b key value = (False, value)) \<and>
   (\<not> fst (Bucket_Find b key value) \<longrightarrow> snd (Bucket_Find b key value) = value) \<and>
   (IndexOf h t key = Inr i \<and> at_slot t i = Inr a \<and> key \<notin> fst ` set (b_list (heap t ! a))
      \<longrightarrow> Find h t key value = Inr (False, value))"
  by (simp add: Bucket_Find_def Find_def Find_scan_miss Find_scan_unassigned)

theorem Find_miss_keeps_out_parameter_witness:
  "Bucket_Find \<lparr>b_size = 2, b_depth = 0, b_list = [(1::nat, ''a'')]\<rparr> 2 ''x'' = (False, ''x'') \<and>
   snd (Bucket_Find \<lparr>b_size = 2, b_depth = 0, b_list = [(1::nat, ''a'')]\<rparr> 2 ''x'') = ''x'' \<and>
   Find hash_id
     \<lparr>global_depth = 0, bucket_size = 2, num_buckets = 1, dir = [Some 0],
      heap = [\<lparr>b_size = 2, b_depth = 0, b_list = [(1::nat, ''a'')]\<rparr>]\<rparr> 2 ''x'' = Inr (False, ''x'')"
  using Find_miss_keeps_out_parameter
    [of 2 "\<lparr>b_size = 2, b_depth = 0, b_list = [(1::nat, ''a'')]\<rparr>" "''x''" hash_id
        "\<lparr>global_depth = 0, bucket_size = 2, num_buckets = 1, dir = [Some 0],
          heap = [\<lparr>b_size = 2, b_depth = 0, b_list = [(1::nat, ''a'')]\<rparr>]\<rparr>" 0 0]
  by (simp add: IndexOf_def shl1_def at_slot_def Bucket_Find_def)

text \<open>
  C2. The claim has an update succeed whether or not the bucket is full. \<open>Bucket::Insert\<close>
  tests \<open>IsFull()\<close> before it scans for the key: on a bucket of capacity 1 that holds key 1,
  inserting key 1 with a new value returns false and leaves the old value.
\<close>

theorem Bucket_Insert_full_rejects_update:
  "Bucket_Insert \<lparr>b_size = 1, b_depth = 0, b_list = [(1::nat, ''a'')]\<rparr> 1 ''b'' =
     (False, \<lparr>b_size = 1, b_depth = 0, b_list = [(1::nat, ''a'')]\<rparr>)"
  by (simp add: Bucket_Insert_def IsFull_def)

section \<open>Table operations on concrete runs\<close>

text \<open>
  C1. The claim has \<open>insert\<close> of a present key update its value. \<open>Insert\<close> returns as soon as
  \<open>Find\<close> succeeds on the addressed bucket: after \<open>Insert(1, "a")\<close> and \<open>Insert(1, "b")\<close> on a
  new table, \<open>Find(1)\<close> yields "a".
\<close>

theorem Insert_present_key_keeps_old_value:
  "(case Insert_all 1 hash_id [(1, ''a''), (1, ''b'')] (ExtendibleHashTable 2) of
      Inl e \<Rightarrow> Inl e
    | Inr t \<Rightarrow> Find hash_id t 1 '''') = Inr (True, ''a'')"
  by code_simp

text \<open>
  C3. \<open>GetNumBuckets\<close> returns \<open>num_buckets_\<close>, which the constructor sets to 1 and no
  operation changes: with capacity 1, after keys 0 and 1 the directory references two
  distinct buckets and \<open>GetNumBuckets\<close> still returns 1.
\<close>

theorem GetNumBuckets_not_counting_split:
  "(case Insert_all 3 hash_id [(0, ''a''), (1, ''b'')] (ExtendibleHashTable 1) of
      Inl e \<Rightarrow> None
    | Inr t \<Rightarrow> Some (dir t, distinct_buckets t, GetNumBuckets t)) = Some ([Some 0, Some 1], 2, 1)"
  by code_simp

text \<open>
  C5. With capacity 1 and keys 0, 2, 4, 1, 3 inserted in this order the directory has length
  \<open>2 ^ global_depth = 8\<close>, slot 3 references the bucket at address 6, of depth 2, and slot 7,
  which has the same two low bits, references the bucket at address 1: the split of a bucket
  whose depth is two or more below the global depth repoints one slot only.
\<close>

theorem aliasing_broken_by_split_below_global_depth:
  "(case Insert_all 6 hash_id [(0, ''a''), (2, ''b''), (4, ''c''), (1, ''d''), (3, ''e'')]
           (ExtendibleHashTable 1) of
      Inl e \<Rightarrow> None
    | Inr t \<Rightarrow>
        Some (global_depth t, length (dir t), dir t ! 3, b_depth (heap t ! 6), dir t ! 7,
              aliasing_at t 3 7, aliasing_ok t))
   = Some (3, 8, Some 6, 2, Some 1, False, False)"
  by code_simp


text \<open>
  C6. With capacity 2 and keys 1 to 5 inserted, slots 0 and 2 reference the bucket at address
  0, of depth 1, which holds keys 2 and 4. \<open>Insert(6)\<close> addresses it through slot 2 and
  splits it (lines 111 to 113) at new depth 2: the sibling, at address 3, is stored in slot
  \<open>2 | 2 = 2\<close>, the very slot that the reference \<open>src_bucket\<close> is bound to, so the loops of
  \<open>RedistributeBucket\<close> read the items of the empty sibling and move nothing. Key 2, whose
  hash has bit \<open>1 << 1\<close> set, stays in the bucket at address 0, which slot 2 no longer
  references; after \<open>Insert(6)\<close> has returned, \<open>Find(2)\<close> misses.
\<close>

theorem split_through_slot_with_new_bit_moves_nothing:
  "(case Insert_all 4 hash_id [(1, ''a''), (2, ''b''), (3, ''c''), (4, ''d''), (5, ''e'')]
           (ExtendibleHashTable 2) of
      Inl e \<Rightarrow> None
    | Inr t \<Rightarrow>
        (case split_below hash_id t 2 0 of
           Inl e \<Rightarrow> None
         | Inr t' \<Rightarrow>
             Some (dir t, b_depth (heap t ! 0), map fst (b_list (heap t ! 0)),
                   dir t', b_depth (heap t' ! 0), map fst (b_list (heap t' ! 0)),
                   map fst (b_list (heap t' ! 3)))))
   = Some ([Some 0, Some 1, Some 0, Some 2], 1, [2, 4],
           [Some 0, Some 1, Some 3, Some 2], 2, [2, 4], []) \<and>
   (case Insert_all 4 hash_id
           [(1, ''a''), (2, ''b''), (3, ''c''), (4, ''d''), (5, ''e''), (6, ''f'')]
           (ExtendibleHashTable 2) of
      Inl e \<Rightarrow> Inl e
    | Inr t \<Rightarrow> Find hash_id t 2 '''') = Inr (False, '''')"
  by code_simp

text \<open>
  C9, as the code has it. \<open>GetLocalDepth\<close> indexes the vector unchecked. For an index inside
  the directory whose slot holds a bucket it returns the depth of that bucket; for an index
  outside (negative, or \<open>2 ^ global_depth\<close> and beyond) the access is out of bounds, which is
  undefined behaviour and no signalled failure.
\<close>

theorem GetLocalDepth_in_and_out_of_range:
  "length (dir t) = 2 ^ global_depth t \<Longrightarrow>
   (0 \<le> i \<and> i < 2 ^ global_depth t \<and> dir t ! nat i = Some a \<and> a < length (heap t)
      \<longrightarrow> GetLocalDepth t i = Inr (b_depth (heap t ! a))) \<and>
   (i < 0 \<or> 2 ^ global_depth t \<le> i
      \<longrightarrow> GetLocalDepth t i = Inl OutOfBounds \<and> \<not> signalled OutOfBounds)"
proof -
  assume len: "length (dir t) = 2 ^ global_depth t"
  have inside: "nat i < length (dir t)" if "0 \<le> i" "i < 2 ^ global_depth t"
  proof -
    have "int (nat i) < int (2 ^ global_depth t)" using that by simp
    then show ?thesis unfolding len by (simp only: of_nat_less_iff)
  qed
  have pos: "0 \<le> i" if "2 ^ global_depth t \<le> i"
  proof -
    have "(0::int) \<le> 2 ^ global_depth t" by simp
    then show ?thesis using that by (rule order_trans)
  qed
  have outside: "\<not> nat i < length (dir t)" if "2 ^ global_depth t \<le> i"
  proof -
    have "int (2 ^ global_depth t) \<le> int (nat i)" using that pos [OF that] by simp
    then show ?thesis unfolding len by (simp only: of_nat_le_iff not_less)
  qed
  show ?thesis
    using inside pos outside by (auto simp: GetLocalDepth_def at_slot_def GetDepth_def)
qed

theorem GetLocalDepth_in_and_out_of_range_witness:
  "GetLocalDepth (ExtendibleHashTable 2 :: (nat, string) table) 0 = Inr 0 \<and>
   GetLocalDepth (ExtendibleHashTable 2 :: (nat, string) table) 1 = Inl OutOfBounds"
  using GetLocalDepth_in_and_out_of_range [of "ExtendibleHashTable 2 :: (nat, string) table" 0 0]
    GetLocalDepth_in_and_out_of_range [of "ExtendibleHashTable 2 :: (nat, string) table" 1 0]
  by (simp add: ExtendibleHashTable_def Bucket_def)

text \<open>
  C9, as the claim has it: an index out of range makes \<open>local_depth\<close> fail fast. On a new
  table, whose directory has the one slot 0, \<open>GetLocalDepth(1)\<close> is an unchecked access beyond
  the vector: nothing is signalled.
\<close>

theorem GetLocalDepth_out_of_range_not_signalled:
  "GetLocalDepth (ExtendibleHashTable 2 :: (nat, string) table) 1 = Inl OutOfBounds \<and>
   \<not> signalled OutOfBounds"
  by (simp add: GetLocalDepth_def at_slot_def ExtendibleHashTable_def)

section \<open>The capacity invariant\<close>

lemma cap_ok_iff: "cap_ok t = (\<forall>b \<in> set (heap t). bucket_ok (bucket_size t) b)"
  by (auto simp: cap_ok_def bucket_ok_def)

lemma length_Insert_scan: "length (Insert_scan l key value) \<le> Suc (length l)"
  by (induction l) auto

lemma length_Remove_scan: "length (snd (Remove_scan l key)) \<le> length l"
  by (induction l) auto

lemma bucket_ok_Insert: "bucket_ok n b \<Longrightarrow> bucket_ok n (snd (Bucket_Insert b key value))"
  using length_Insert_scan [of "b_list b" key "value"]
  by (auto simp: bucket_ok_def Bucket_Insert_def IsFull_def)

lemma bucket_ok_Remove: "bucket_ok n b \<Longrightarrow> bucket_ok n (snd (Bucket_Remove b key))"
  using length_Remove_scan [of "b_list b" key]
  by (auto simp: bucket_ok_def Bucket_Remove_def)

lemma bucket_ok_IncrementDepth: "bucket_ok n b \<Longrightarrow> bucket_ok n (IncrementDepth b)"
  by (simp add: bucket_ok_def IncrementDepth_def)

lemma bucket_ok_Bucket: "bucket_ok n (Bucket n d)"
  by (simp add: bucket_ok_def Bucket_def)

lemma all_update:
  "\<forall>b \<in> set hp. P b \<Longrightarrow> (a < length hp \<Longrightarrow> P x) \<Longrightarrow> \<forall>b \<in> set (hp[a := x]). P b"
  using set_update_subset_insert [of hp a x] by (cases "a < length hp") (auto simp: list_update_beyond)

lemma move_pairs_all:
  assumes "\<And>b k v. P b \<Longrightarrow> P (snd (Bucket_Insert b k v))"
    and "\<And>b k. P b \<Longrightarrow> P (snd (Bucket_Remove b k))"
  shows "\<forall>b \<in> set hp. P b \<Longrightarrow> \<forall>b \<in> set (move_pairs ps src dst hp). P b"
proof (induction ps arbitrary: hp)
  case Nil
  then show ?case by simp
next
  case (Cons p ps)
  obtain k v where p: "p = (k, v)" by (cases p)
  let ?hp1 = "hp[dst := snd (Bucket_Insert (hp ! dst) k v)]"
  let ?hp2 = "?hp1[src := snd (Bucket_Remove (?hp1 ! src) k)]"
  have 1: "\<forall>b \<in> set ?hp1. P b"
  proof (rule all_update)
    show "\<forall>b \<in> set hp. P b" by fact
    assume "dst < length hp"
    then have "P (hp ! dst)" using Cons.prems by simp
    then show "P (snd (Bucket_Insert (hp ! dst) k v))" by (rule assms(1))
  qed
  have 2: "\<forall>b \<in> set ?hp2. P b"
  proof (rule all_update)
    show "\<forall>b \<in> set ?hp1. P b" by fact
    assume "src < length ?hp1"
    then have "P (?hp1 ! src)" using 1 nth_mem by blast
    then show "P (snd (Bucket_Remove (?hp1 ! src) k))" by (rule assms(2))
  qed
  show ?case using Cons.IH [OF 2] by (simp add: p Let_def)
qed

lemma length_move_pairs [simp]: "length (move_pairs ps src dst hp) = length hp"
  by (induction ps src dst hp rule: move_pairs.induct) (simp_all add: Let_def)

lemma RedistributeBucket_Inr:
  assumes "RedistributeBucket h t s dst idx = Inr t'"
  shows "\<exists>a0 a1 m.
           at_slot t s = Inr a0 \<and> 0 < b_depth (heap t ! a0) \<and> b_depth (heap t ! a0) \<le> 31 \<and>
           m = 2 ^ (b_depth (heap t ! a0) - 1) \<and> (idx OR m) < length (dir t) \<and>
           at_slot (t\<lparr>dir := (dir t)[(idx OR m) := Some dst]\<rparr>) s = Inr a1 \<and>
           t' = t\<lparr>dir := (dir t)[(idx OR m) := Some dst],
                  heap := move_pairs (filter (\<lambda>(k, v). h k AND m \<noteq> 0) (b_list (heap t ! a1)))
                            a1 dst (heap t)\<rparr>"
proof -
  from assms obtain a0 where a0: "at_slot t s = Inr a0"
    by (cases "at_slot t s") (simp_all add: RedistributeBucket_def)
  let ?d = "b_depth (heap t ! a0)"
  have d0: "?d \<noteq> 0"
    using assms a0 by (cases "?d = 0") (simp_all add: RedistributeBucket_def GetDepth_def)
  have d31: "?d - 1 < 31"
    using assms a0 d0 by (cases "?d - 1 < 31") (simp_all add: RedistributeBucket_def GetDepth_def shl1_def)
  let ?m = "(2::nat) ^ (?d - 1)"
  let ?t1 = "t\<lparr>dir := (dir t)[(idx OR ?m) := Some dst]\<rparr>"
  have eq: "RedistributeBucket h t s dst idx =
      (if \<not> (idx OR ?m) < length (dir t) then Inl OutOfBounds
       else (case at_slot ?t1 s of
               Inl e \<Rightarrow> Inl e
             | Inr a1 \<Rightarrow>
                 Inr (?t1\<lparr>heap := move_pairs (filter (\<lambda>(k, v). h k AND ?m \<noteq> 0) (b_list (heap ?t1 ! a1)))
                                     a1 dst (heap ?t1)\<rparr>)))"
    using a0 d0 d31
    by (simp add: RedistributeBucket_def GetDepth_def GetItems_def shl1_def Let_def split: sum.splits)
  have rng: "(idx OR ?m) < length (dir t)"
    using assms unfolding eq by (cases "(idx OR ?m) < length (dir t)") simp_all
  from assms obtain a1 where a1: "at_slot ?t1 s = Inr a1"
    unfolding eq using rng by (cases "at_slot ?t1 s") simp_all
  have "t' = ?t1\<lparr>heap := move_pairs (filter (\<lambda>(k, v). h k AND ?m \<noteq> 0) (b_list (heap ?t1 ! a1)))
                                     a1 dst (heap ?t1)\<rparr>"
    using assms unfolding eq using rng a1 by simp
  then have "t' = t\<lparr>dir := (dir t)[(idx OR ?m) := Some dst],
                  heap := move_pairs (filter (\<lambda>(k, v). h k AND ?m \<noteq> 0) (b_list (heap t ! a1)))
                            a1 dst (heap t)\<rparr>"
    by simp
  moreover have "0 < ?d" "?d \<le> 31" using d0 d31 by simp_all
  ultimately show ?thesis using a0 rng a1 by blast
qed

lemma RedistributeBucket_frame:
  assumes "RedistributeBucket h t s dst idx = Inr t'"
  shows "global_depth t' = global_depth t" "bucket_size t' = bucket_size t"
    "num_buckets t' = num_buckets t" "length (dir t') = length (dir t)"
    "length (heap t') = length (heap t)"
  using RedistributeBucket_Inr [OF assms] by auto

lemma RedistributeBucket_all:
  assumes "RedistributeBucket h t s dst idx = Inr t'"
    and "\<And>b k v. P b \<Longrightarrow> P (snd (Bucket_Insert b k v))"
    and "\<And>b k. P b \<Longrightarrow> P (snd (Bucket_Remove b k))"
    and "\<forall>b \<in> set (heap t). P b"
  shows "\<forall>b \<in> set (heap t'). P b"
proof -
  from RedistributeBucket_Inr [OF assms(1)] obtain ps a1 where "heap t' = move_pairs ps a1 dst (heap t)"
    by auto
  then show ?thesis using move_pairs_all [of P, OF assms(2,3) assms(4)] by simp
qed

lemma cap_ok_split_grown:
  assumes "cap_ok t" and "split_grown h t bi a = Inr t'"
  shows "cap_ok t'"
proof -
  let ?t1 = "t\<lparr>heap := heap t @ [Bucket (bucket_size t) (GetDepth (heap t ! a))]\<rparr>"
  have r: "RedistributeBucket h ?t1 bi (length (heap t)) bi = Inr t'"
    using assms(2) by (simp add: split_grown_def)
  have all: "\<forall>b \<in> set (heap ?t1). bucket_ok (bucket_size t) b"
    using assms(1) by (auto simp: cap_ok_iff bucket_ok_Bucket)
  have "\<forall>b \<in> set (heap t'). bucket_ok (bucket_size t) b"
  proof (rule RedistributeBucket_all [OF r _ _ all])
    fix b :: "('a, 'b) bucket" and k v
    assume "bucket_ok (bucket_size t) b"
    then show "bucket_ok (bucket_size t) (snd (Bucket_Insert b k v))" by (rule bucket_ok_Insert)
  next
    fix b :: "('a, 'b) bucket" and k
    assume "bucket_ok (bucket_size t) b"
    then show "bucket_ok (bucket_size t) (snd (Bucket_Remove b k))" by (rule bucket_ok_Remove)
  qed
  then show ?thesis using RedistributeBucket_frame(2) [OF r] by (simp add: cap_ok_iff)
qed

lemma cap_ok_heap_update:
  "cap_ok t \<Longrightarrow> (a < length (heap t) \<Longrightarrow> bucket_ok (bucket_size t) x) \<Longrightarrow> cap_ok (t\<lparr>heap := (heap t)[a := x]\<rparr>)"
  using all_update [of "heap t" "bucket_ok (bucket_size t)" a x] by (simp add: cap_ok_iff)

lemma cap_ok_split_below:
  assumes "cap_ok t" and "split_below h t bi a = Inr t'"
  shows "cap_ok t'"
proof -
  have "cap_ok (t\<lparr>heap := (heap t)[a := IncrementDepth (heap t ! a)]\<rparr>)"
    using assms(1) by (intro cap_ok_heap_update) (auto simp: cap_ok_iff bucket_ok_IncrementDepth)
  then show ?thesis using assms(2) cap_ok_split_grown by (auto simp: split_below_def)
qed

lemma cap_ok_grow_directory:
  assumes "cap_ok t"
  shows "cap_ok (grow_directory t a)"
proof -
  have "cap_ok (t\<lparr>heap := (heap t)[a := IncrementDepth (heap t ! a)]\<rparr>)"
    using assms by (intro cap_ok_heap_update) (auto simp: cap_ok_iff bucket_ok_IncrementDepth)
  then show ?thesis by (simp add: cap_ok_iff grow_directory_def)
qed

lemma cap_ok_Insert:
  assumes "cap_ok t" and "Insert n h key value t = Inr t'"
  shows "cap_ok t'"
proof -
  have "(\<forall>t t'. cap_ok t \<longrightarrow> Insert n h key value t = Inr t' \<longrightarrow> cap_ok t') \<and>
        (\<forall>t t' msk bi i. cap_ok t \<longrightarrow> Insert_grow n h key value msk bi i t = Inr t' \<longrightarrow> cap_ok t')"
  proof (rule Insert_invariant)
    fix t :: "('a, 'b) table" and a
    assume "cap_ok t" "a < length (heap t)"
    then show "cap_ok (t\<lparr>heap := (heap t)[a := snd (Bucket_Insert (heap t ! a) key value)]\<rparr>)"
      by (intro cap_ok_heap_update) (auto simp: cap_ok_iff bucket_ok_Insert)
  next
    fix t :: "('a, 'b) table" and a
    assume "cap_ok t"
    then show "cap_ok (grow_directory t a)" by (rule cap_ok_grow_directory)
  next
    fix t t' :: "('a, 'b) table" and bi a
    assume "cap_ok t" "split_below h t bi a = Inr t'"
    then show "cap_ok t'" by (rule cap_ok_split_below)
  next
    fix t t' :: "('a, 'b) table" and bi a
    assume "cap_ok t" "split_grown h t bi a = Inr t'"
    then show "cap_ok t'" by (rule cap_ok_split_grown)
  next
    fix t :: "('a, 'b) table" and i j
    assume "cap_ok t"
    then show "cap_ok (t\<lparr>dir := (dir t)[i := dir t ! j]\<rparr>)" by (simp add: cap_ok_iff)
  qed
  then show ?thesis using assms by blast
qed

lemma cap_ok_Remove:
  assumes "cap_ok t" and "Remove h t key = Inr (r, t')"
  shows "cap_ok t'"
proof -
  from assms(2) obtain a where "t' = t\<lparr>heap := (heap t)[a := snd (Bucket_Remove (heap t ! a) key)]\<rparr>"
    and "a < length (heap t)"
    by (auto simp: Remove_def at_slot_def split: sum.splits if_splits option.splits)
  moreover have "bucket_ok (bucket_size t) (snd (Bucket_Remove (heap t ! a) key))"
    using assms(1) \<open>a < length (heap t)\<close> by (simp add: cap_ok_iff bucket_ok_Remove)
  ultimately show ?thesis using cap_ok_heap_update [OF assms(1)] by simp
qed

lemma cap_ok_new: "cap_ok (ExtendibleHashTable n)"
  by (simp add: cap_ok_def ExtendibleHashTable_def Bucket_def)


text \<open>
  C4. The capacity of buckets. A new table satisfies the capacity invariant; \<open>Insert\<close>, with
  any cascade of splits, and \<open>Remove\<close> keep it, for every bucket of the store, whenever
  they return (\<open>Find\<close> changes no state); and \<open>Bucket::Insert\<close> on a full bucket returns false
  and the bucket as it was, while on a bucket with room it stores the whole pair.
\<close>

theorem capacity_never_exceeded:
  "cap_ok (ExtendibleHashTable n :: ('k, 'v) table) \<and>
   (cap_ok (t :: ('k, 'v) table) \<and> Insert fuel h key value t = Inr t' \<longrightarrow> cap_ok t') \<and>
   (cap_ok t \<and> Remove h t key' = Inr (r, t'') \<longrightarrow> cap_ok t'') \<and>
   (IsFull (b :: ('k, 'v) bucket) \<longrightarrow> Bucket_Insert b key value = (False, b)) \<and>
   (\<not> IsFull b \<longrightarrow> fst (Bucket_Insert b key value) \<and>
                    (key, value) \<in> set (b_list (snd (Bucket_Insert b key value))))"
proof -
  have "(key, value) \<in> set (Insert_scan l key value)" for l :: "('k \<times> 'v) list"
    by (induction l) auto
  then have "\<not> IsFull b \<longrightarrow> fst (Bucket_Insert b key value) \<and>
                    (key, value) \<in> set (b_list (snd (Bucket_Insert b key value)))"
    by (simp add: Bucket_Insert_def)
  moreover have "IsFull b \<longrightarrow> Bucket_Insert b key value = (False, b)"
    by (simp add: Bucket_Insert_def)
  ultimately show ?thesis
    using cap_ok_new [of n] cap_ok_Insert [of t fuel h key "value" t'] cap_ok_Remove [of t h key' r t'']
    by blast
qed

theorem capacity_never_exceeded_witness:
  "cap_ok (ExtendibleHashTable 1 :: (nat, string) table) \<and>
   cap_ok \<lparr>global_depth = 1, bucket_size = 1, num_buckets = 1, dir = [Some 0, Some 1],
           heap = [\<lparr>b_size = 1, b_depth = 1, b_list = [(0::nat, ''a'')]\<rparr>,
                   \<lparr>b_size = 1, b_depth = 1, b_list = [(1, ''b'')]\<rparr>]\<rparr> \<and>
   cap_ok \<lparr>global_depth = 0, bucket_size = 1, num_buckets = 1, dir = [Some 0],
           heap = [\<lparr>b_size = 1, b_depth = 0, b_list = ([] :: (nat \<times> string) list)\<rparr>]\<rparr> \<and>
   Bucket_Insert \<lparr>b_size = 1, b_depth = 0, b_list = [(0::nat, ''a'')]\<rparr> 1 ''b'' =
     (False, \<lparr>b_size = 1, b_depth = 0, b_list = [(0::nat, ''a'')]\<rparr>)"
proof -
  let ?b = "\<lparr>b_size = 1, b_depth = 0, b_list = [(0::nat, ''a'')]\<rparr>"
  let ?t = "\<lparr>global_depth = 0, bucket_size = 1, num_buckets = 1, dir = [Some 0], heap = [?b]\<rparr>"
  let ?t' = "\<lparr>global_depth = 1, bucket_size = 1, num_buckets = 1, dir = [Some 0, Some 1],
           heap = [\<lparr>b_size = 1, b_depth = 1, b_list = [(0::nat, ''a'')]\<rparr>,
                   \<lparr>b_size = 1, b_depth = 1, b_list = [(1, ''b'')]\<rparr>]\<rparr>"
  let ?t'' = "\<lparr>global_depth = 0, bucket_size = 1, num_buckets = 1, dir = [Some 0],
           heap = [\<lparr>b_size = 1, b_depth = 0, b_list = ([] :: (nat \<times> string) list)\<rparr>]\<rparr>"
  have c: "cap_ok ?t" by (simp add: cap_ok_def)
  have i: "Insert 3 hash_id 1 ''b'' ?t = Inr ?t'" by code_simp
  have r: "Remove hash_id ?t 0 = Inr (True, ?t'')" by code_simp
  have f: "IsFull ?b" by (simp add: IsFull_def)
  show ?thesis
    using capacity_never_exceeded
      [of 1 ?t 3 hash_id 1 "''b''" ?t' 0 True ?t'' ?b]
      c i r f
    by blast
qed

section \<open>The directory index\<close>

lemma length_resize [simp]: "length (resize n xs) = n"
  by (simp add: resize_def)

lemma split_grown_frame:
  assumes "split_grown h t bi a = Inr t'"
  shows "global_depth t' = global_depth t" "bucket_size t' = bucket_size t"
    "num_buckets t' = num_buckets t" "length (dir t') = length (dir t)"
    "length (heap t') = Suc (length (heap t))"
  using RedistributeBucket_frame [OF assms [unfolded split_grown_def]] by simp_all

lemma split_below_frame:
  assumes "split_below h t bi a = Inr t'"
  shows "global_depth t' = global_depth t" "bucket_size t' = bucket_size t"
    "num_buckets t' = num_buckets t" "length (dir t') = length (dir t)"
    "length (heap t') = Suc (length (heap t))"
  using split_grown_frame [OF assms [unfolded split_below_def]] by simp_all

lemma dir_ok_Insert:
  assumes "dir_ok t" and "Insert n h key value t = Inr t'"
  shows "dir_ok t'"
proof -
  have "(\<forall>t t'. dir_ok t \<longrightarrow> Insert n h key value t = Inr t' \<longrightarrow> dir_ok t') \<and>
        (\<forall>t t' msk bi i. dir_ok t \<longrightarrow> Insert_grow n h key value msk bi i t = Inr t' \<longrightarrow> dir_ok t')"
  proof (rule Insert_invariant)
    fix t :: "('a, 'b) table" and a
    assume "dir_ok t"
    then show "dir_ok (t\<lparr>heap := (heap t)[a := snd (Bucket_Insert (heap t ! a) key value)]\<rparr>)"
      by (simp add: dir_ok_def)
  next
    fix t :: "('a, 'b) table" and a
    assume "dir_ok t" "global_depth t < 30"
    then show "dir_ok (grow_directory t a)"
      by (simp add: dir_ok_def grow_directory_def push_bit_of_1)
  next
    fix t t' :: "('a, 'b) table" and bi a
    assume "dir_ok t" "split_below h t bi a = Inr t'"
    then show "dir_ok t'" using split_below_frame [of h t bi a t'] by (simp add: dir_ok_def)
  next
    fix t t' :: "('a, 'b) table" and bi a
    assume "dir_ok t" "split_grown h t bi a = Inr t'"
    then show "dir_ok t'" using split_grown_frame [of h t bi a t'] by (simp add: dir_ok_def)
  next
    fix t :: "('a, 'b) table" and i j
    assume "dir_ok t"
    then show "dir_ok (t\<lparr>dir := (dir t)[i := dir t ! j]\<rparr>)" by (simp add: dir_ok_def)
  qed
  then show ?thesis using assms by blast
qed

lemma Remove_Inr:
  assumes "Remove h t key = Inr (r, t')"
  shows "\<exists>a. a < length (heap t) \<and> t' = t\<lparr>heap := (heap t)[a := snd (Bucket_Remove (heap t ! a) key)]\<rparr>"
  using assms by (auto simp: Remove_def at_slot_def split: sum.splits if_splits option.splits)

lemma reachable_dir_ok: "reachable h t \<Longrightarrow> dir_ok t"
proof (induction rule: reachable.induct)
  case (reachable_new n)
  show ?case by (simp add: dir_ok_def ExtendibleHashTable_def)
next
  case (reachable_Insert t fuel key v t')
  from this(3) this(2) show ?case by (rule dir_ok_Insert)
next
  case (reachable_Remove t key r t')
  then show ?case using Remove_Inr [of h t key r t'] by (auto simp: dir_ok_def)
qed

lemma and_low_bits: "(x::nat) AND (2 ^ n - 1) = take_bit n x"
  by (simp add: take_bit_eq_mask mask_eq_exp_minus_1)

lemma and_low_bits_Suc: "(x::nat) AND (2 ^ n - Suc 0) = take_bit n x"
  using and_low_bits [of x n] by simp

lemma IndexOf_eq: "global_depth t < 31 \<Longrightarrow> IndexOf h t key = Inr (take_bit (global_depth t) (h key))"
  by (simp add: IndexOf_def shl1_def push_bit_of_1 and_low_bits_Suc)

text \<open>
  C8. In every state of a table's lifetime \<open>IndexOf(key)\<close> is \<open>hash(key) & ((1 << global_depth_) - 1)\<close>,
  the low \<open>global_depth_\<close> bits of the hash, and it is the slot through which \<open>Find\<close>, \<open>Remove\<close>
  and \<open>Insert\<close> reach their bucket.
\<close>

theorem index_is_low_bits_of_hash:
  "reachable h t \<Longrightarrow>
   IndexOf h t key = Inr (h key AND (2 ^ global_depth t - 1)) \<and>
   h key AND (2 ^ global_depth t - 1) = take_bit (global_depth t) (h key) \<and>
   Find h t key value =
     (case at_slot t (h key AND (2 ^ global_depth t - 1)) of
        Inl e \<Rightarrow> Inl e
      | Inr a \<Rightarrow> Inr (Bucket_Find (heap t ! a) key value)) \<and>
   Remove h t key =
     (case at_slot t (h key AND (2 ^ global_depth t - 1)) of
        Inl e \<Rightarrow> Inl e
      | Inr a \<Rightarrow>
          Inr (fst (Bucket_Remove (heap t ! a) key),
               t\<lparr>heap := (heap t)[a := snd (Bucket_Remove (heap t ! a) key)]\<rparr>)) \<and>
   Insert (Suc n) h key value t =
     (case at_slot t (h key AND (2 ^ global_depth t - 1)) of
        Inl e \<Rightarrow> Inl e
      | Inr a \<Rightarrow>
          if fst (Bucket_Find (heap t ! a) key value) then Inr t
          else if \<not> IsFull (heap t ! a) then
            Inr (t\<lparr>heap := (heap t)[a := snd (Bucket_Insert (heap t ! a) key value)]\<rparr>)
          else if b_depth (heap t ! a) = global_depth t then
            (if global_depth t + 1 = 31 then Inl LengthError
             else Insert_grow n h key value (2 ^ global_depth t - 1)
                    (h key AND (2 ^ global_depth t - 1)) (2 ^ global_depth t) (grow_directory t a))
          else
            (case split_below h t (h key AND (2 ^ global_depth t - 1)) a of
               Inl e \<Rightarrow> Inl e
             | Inr t3 \<Rightarrow> Insert n h key value t3))"
proof -
  assume "reachable h t"
  then have "global_depth t < 31" using reachable_dir_ok by (auto simp: dir_ok_def)
  then have "IndexOf h t key = Inr (h key AND (2 ^ global_depth t - 1))"
    by (simp add: IndexOf_eq and_low_bits_Suc)
  then show ?thesis
    by (simp add: Find_def Remove_def Insert_Suc and_low_bits_Suc push_bit_of_1 split: sum.splits)
qed

theorem index_is_low_bits_of_hash_witness:
  "IndexOf hash_id
     \<lparr>global_depth = 1, bucket_size = 1, num_buckets = 1, dir = [Some 0, Some 1],
      heap = [\<lparr>b_size = 1, b_depth = 1, b_list = [(0::nat, ''a'')]\<rparr>,
              \<lparr>b_size = 1, b_depth = 1, b_list = [(1, ''b'')]\<rparr>]\<rparr> 7 = Inr 1 \<and>
   Find hash_id
     \<lparr>global_depth = 1, bucket_size = 1, num_buckets = 1, dir = [Some 0, Some 1],
      heap = [\<lparr>b_size = 1, b_depth = 1, b_list = [(0::nat, ''a'')]\<rparr>,
              \<lparr>b_size = 1, b_depth = 1, b_list = [(1, ''b'')]\<rparr>]\<rparr> 1 '''' = Inr (True, ''b'')"
proof -
  let ?t0 = "ExtendibleHashTable 1 :: (nat, string) table"
  let ?t1 = "\<lparr>global_depth = 0, bucket_size = 1, num_buckets = 1, dir = [Some 0],
              heap = [\<lparr>b_size = 1, b_depth = 0, b_list = [(0::nat, ''a'')]\<rparr>]\<rparr>"
  let ?t2 = "\<lparr>global_depth = 1, bucket_size = 1, num_buckets = 1, dir = [Some 0, Some 1],
      heap = [\<lparr>b_size = 1, b_depth = 1, b_list = [(0::nat, ''a'')]\<rparr>,
              \<lparr>b_size = 1, b_depth = 1, b_list = [(1, ''b'')]\<rparr>]\<rparr>"
  have 1: "Insert 1 hash_id 0 ''a'' ?t0 = Inr ?t1" by code_simp
  have 2: "Insert 3 hash_id 1 ''b'' ?t1 = Inr ?t2" by code_simp
  have r: "reachable hash_id ?t2"
    using reachable_Insert [OF reachable_Insert [OF reachable_new 1] 2] .
  show ?thesis
    using index_is_low_bits_of_hash [OF r, of 7 "''''" 0] index_is_low_bits_of_hash [OF r, of 1 "''''" 0]
    by (simp add: hash_id_def at_slot_def Bucket_Find_def)
qed

section \<open>Termination of Insert\<close>




lemma b_depth_Bucket_Insert [simp]: "b_depth (snd (Bucket_Insert b k v)) = b_depth b"
  by (simp add: Bucket_Insert_def)

lemma b_depth_Bucket_Remove [simp]: "b_depth (snd (Bucket_Remove b k)) = b_depth b"
  by (simp add: Bucket_Remove_def)

lemma move_pairs_depth:
  "x < length hp \<Longrightarrow> b_depth (move_pairs ps src dst hp ! x) = b_depth (hp ! x)"
proof (induction ps arbitrary: hp)
  case Nil
  then show ?case by simp
next
  case (Cons p ps)
  obtain k v where p: "p = (k, v)" by (cases p)
  let ?hp1 = "hp[dst := snd (Bucket_Insert (hp ! dst) k v)]"
  let ?hp2 = "?hp1[src := snd (Bucket_Remove (?hp1 ! src) k)]"
  have 1: "b_depth (?hp1 ! x) = b_depth (hp ! x)"
    using Cons.prems by (cases "x = dst") simp_all
  have 2: "b_depth (?hp2 ! x) = b_depth (?hp1 ! x)"
    using Cons.prems by (cases "x = src") simp_all
  have "x < length ?hp2" using Cons.prems by simp
  then have "b_depth (move_pairs ps src dst ?hp2 ! x) = b_depth (?hp2 ! x)" by (rule Cons.IH)
  then show ?case using 1 2 by (simp add: p Let_def)
qed

lemma at_slot_cong:
  "dir t' = dir t \<Longrightarrow> length (heap t') = length (heap t) \<Longrightarrow> at_slot t' i = at_slot t i"
  by (simp add: at_slot_def split: option.splits)












section \<open>Insert on a well-formed table: a return or a thrown exception\<close>

lemma or_less_exp: "(a::nat) < 2 ^ n \<Longrightarrow> b < 2 ^ n \<Longrightarrow> a OR b < 2 ^ n"
proof -
  assume a: "a < 2 ^ n" and b: "b < 2 ^ n"
  have "take_bit n (a OR b) = a OR b"
    using a b by (simp add: take_bit_or take_bit_nat_eq_self)
  then show ?thesis by (metis take_bit_nat_less_exp)
qed

lemma or_exp_neq: "(a::nat) < 2 ^ k \<Longrightarrow> a OR 2 ^ k \<noteq> a"
proof
  assume a: "a < 2 ^ k" and e: "a OR 2 ^ k = a"
  have "bit (a OR 2 ^ k) k" by (simp add: bit_or_iff bit_exp_iff)
  then have "bit a k" using e by simp
  moreover have "take_bit k a = a" using a by (simp add: take_bit_nat_eq_self)
  ultimately have "bit (take_bit k a) k" by simp
  then show False by (simp add: bit_take_bit_iff)
qed

lemma or_exp_add: "(a::nat) < 2 ^ k \<Longrightarrow> a OR 2 ^ k = a + 2 ^ k"
proof -
  assume a: "a < 2 ^ k"
  have "\<not> bit a k"
  proof
    assume "bit a k"
    moreover have "take_bit k a = a" using a by (simp add: take_bit_nat_eq_self)
    ultimately have "bit (take_bit k a) k" by simp
    then show False by (simp add: bit_take_bit_iff)
  qed
  then have "set_bit k a = a + 2 ^ k" by (simp add: set_bit_eq)
  then show ?thesis by (simp add: set_bit_eq_or ac_simps)
qed

lemma prefix_or_exp:
  assumes "take_bit g (x::nat) = take_bit n x OR 2 ^ d" and "d < n"
  shows "take_bit n x OR 2 ^ d = take_bit n x"
proof -
  have "bit (take_bit g x) d" unfolding assms(1) by (simp add: bit_or_iff bit_exp_iff)
  then have "bit x d" by (simp add: bit_take_bit_iff)
  then have "bit (take_bit n x) d" using assms(2) by (simp add: bit_take_bit_iff)
  then show ?thesis
    by (intro bit_eqI) (auto simp: bit_or_iff bit_exp_iff)
qed

lemma take_bit_ge:
  assumes "take_bit g (i::nat) = b" and "2 ^ g \<le> i"
  shows "b + 2 ^ g \<le> i"
proof -
  have "i mod 2 ^ g = b" using assms(1) by (simp add: take_bit_eq_mod)
  then have i: "i = b + 2 ^ g * (i div 2 ^ g)"
    using mod_mult_div_eq [of i "2 ^ g"] by simp
  have "(2::nat) ^ g div 2 ^ g \<le> i div 2 ^ g" using assms(2) by (rule div_le_mono)
  then have "1 \<le> i div 2 ^ g" by simp
  then have "(2::nat) ^ g * 1 \<le> 2 ^ g * (i div 2 ^ g)" by (intro mult_le_mono2)
  then have "b + 2 ^ g \<le> b + 2 ^ g * (i div 2 ^ g)" by simp
  then show ?thesis using i by simp
qed

lemma take_bit_Suc_cases:
  "take_bit (Suc n) (x::nat) = take_bit n x \<or> take_bit (Suc n) x = take_bit n x + 2 ^ n"
  by (simp add: take_bit_Suc_from_most)

lemma nth_resize: "j < length xs \<Longrightarrow> j < n \<Longrightarrow> resize n xs ! j = xs ! j"
  by (simp add: resize_def nth_append)

lemma slot_ok_iff:
  "slot_ok t j = (\<exists>a. at_slot t j = Inr a \<and> b_depth (heap t ! a) \<le> global_depth t)"
  by (cases "at_slot t j") (simp_all add: slot_ok_def)

lemma at_slot_iff:
  "at_slot t j = Inr a \<longleftrightarrow> j < length (dir t) \<and> dir t ! j = Some a \<and> a < length (heap t)"
  by (auto simp: at_slot_def split: option.splits)

lemma slot_depth_Inr: "at_slot t j = Inr a \<Longrightarrow> slot_depth t j = b_depth (heap t ! a)"
  by (simp add: slot_depth_def)

lemma well_formed_key_slots: "well_formed t \<Longrightarrow> key_slots_ok x t"
proof -
  assume w: "well_formed t"
  have "slot_ok t (take_bit g x)" if "g \<le> global_depth t" for g
  proof -
    have "take_bit g x < 2 ^ g" by (rule take_bit_nat_less_exp)
    also have "(2::nat) ^ g \<le> 2 ^ global_depth t" using that by simp
    finally show ?thesis using w by (simp add: well_formed_def)
  qed
  then show ?thesis using w by (simp add: well_formed_def key_slots_ok_def)
qed

text \<open>What \<open>RedistributeBucket\<close> does to the directory and to the depths when nothing fails.\<close>

lemma RedistributeBucket_runs:
  assumes a0: "at_slot t s = Inr a0"
    and d0: "0 < b_depth (heap t ! a0)" and d31: "b_depth (heap t ! a0) \<le> 31"
    and rng: "(idx OR 2 ^ (b_depth (heap t ! a0) - 1)) < length (dir t)"
    and dst: "dst < length (heap t)"
  shows "\<exists>t'. RedistributeBucket h t s dst idx = Inr t' \<and>
           global_depth t' = global_depth t \<and>
           dir t' = (dir t)[(idx OR 2 ^ (b_depth (heap t ! a0) - 1)) := Some dst] \<and>
           length (heap t') = length (heap t) \<and>
           (\<forall>y < length (heap t). b_depth (heap t' ! y) = b_depth (heap t ! y))"
proof -
  let ?m = "(2::nat) ^ (b_depth (heap t ! a0) - 1)"
  let ?t1 = "t\<lparr>dir := (dir t)[(idx OR ?m) := Some dst]\<rparr>"
  have sl: "s < length (dir t)" and ds: "dir t ! s = Some a0" and al: "a0 < length (heap t)"
    using a0 by (simp_all add: at_slot_iff)
  obtain a1 where a1: "at_slot ?t1 s = Inr a1"
  proof (cases "s = (idx OR ?m)")
    case True
    then have "at_slot ?t1 s = Inr dst" using sl dst by (simp add: at_slot_iff)
    then show ?thesis using that by blast
  next
    case False
    then have "at_slot ?t1 s = Inr a0" using sl ds al by (simp add: at_slot_iff)
    then show ?thesis using that by blast
  qed
  have sh: "shl1 (b_depth (heap t ! a0) - 1) = Inr ?m"
    using d0 d31 by (simp add: shl1_def push_bit_of_1)
  let ?t' = "?t1\<lparr>heap := move_pairs (filter (\<lambda>(k, v). h k AND ?m \<noteq> 0) (b_list (heap ?t1 ! a1)))
                                     a1 dst (heap ?t1)\<rparr>"
  have "RedistributeBucket h t s dst idx = Inr ?t'"
    using a0 d0 sh rng a1
    by (simp add: RedistributeBucket_def GetDepth_def GetItems_def Let_def)
  moreover have "\<forall>y < length (heap t). b_depth (heap ?t' ! y) = b_depth (heap t ! y)"
    by (simp add: move_pairs_depth)
  ultimately show ?thesis by simp
qed

lemma split_grown_runs:
  assumes a: "at_slot t bi = Inr a"
    and d0: "0 < b_depth (heap t ! a)" and d31: "b_depth (heap t ! a) \<le> 31"
    and rng: "(bi OR 2 ^ (b_depth (heap t ! a) - 1)) < length (dir t)"
  shows "\<exists>t'. split_grown h t bi a = Inr t' \<and>
           global_depth t' = global_depth t \<and>
           dir t' = (dir t)[(bi OR 2 ^ (b_depth (heap t ! a) - 1)) := Some (length (heap t))] \<and>
           length (heap t') = Suc (length (heap t)) \<and>
           (\<forall>y < length (heap t). b_depth (heap t' ! y) = b_depth (heap t ! y)) \<and>
           b_depth (heap t' ! length (heap t)) = b_depth (heap t ! a)"
proof -
  let ?t2 = "t\<lparr>heap := heap t @ [Bucket (bucket_size t) (GetDepth (heap t ! a))]\<rparr>"
  have al: "a < length (heap t)" using a by (simp add: at_slot_iff)
  have a2: "at_slot ?t2 bi = Inr a" using a by (simp add: at_slot_iff)
  have h2: "heap ?t2 ! a = heap t ! a" using al by (simp add: nth_append)
  from RedistributeBucket_runs
         [where t = ?t2 and s = bi and ?a0.0 = a and dst = "length (heap t)" and idx = bi and h = h, OF a2]
  obtain t' where r: "RedistributeBucket h ?t2 bi (length (heap t)) bi = Inr t'"
    and g: "global_depth t' = global_depth ?t2"
    and d: "dir t' = (dir ?t2)[(bi OR 2 ^ (b_depth (heap ?t2 ! a) - 1)) := Some (length (heap t))]"
    and l: "length (heap t') = length (heap ?t2)"
    and b: "\<forall>y < length (heap ?t2). b_depth (heap t' ! y) = b_depth (heap ?t2 ! y)"
    using d0 d31 rng unfolding h2 by auto
  have "\<forall>y < length (heap t). b_depth (heap t' ! y) = b_depth (heap t ! y)"
    using b by (simp add: nth_append)
  moreover have "b_depth (heap t' ! length (heap t)) = b_depth (heap t ! a)"
    using b by (simp add: nth_append Bucket_def GetDepth_def)
  ultimately show ?thesis using r g d l unfolding h2 by (simp add: split_grown_def)
qed

lemma split_below_runs:
  assumes a: "at_slot t bi = Inr a"
    and d31: "b_depth (heap t ! a) < 31"
    and rng: "(bi OR 2 ^ b_depth (heap t ! a)) < length (dir t)"
  shows "\<exists>t'. split_below h t bi a = Inr t' \<and>
           global_depth t' = global_depth t \<and>
           dir t' = (dir t)[(bi OR 2 ^ b_depth (heap t ! a)) := Some (length (heap t))] \<and>
           length (heap t') = Suc (length (heap t)) \<and>
           (\<forall>y < length (heap t). b_depth (heap t' ! y) =
               (if y = a then Suc (b_depth (heap t ! a)) else b_depth (heap t ! y))) \<and>
           b_depth (heap t' ! length (heap t)) = Suc (b_depth (heap t ! a))"
proof -
  let ?t1 = "t\<lparr>heap := (heap t)[a := IncrementDepth (heap t ! a)]\<rparr>"
  have al: "a < length (heap t)" using a by (simp add: at_slot_iff)
  have a1: "at_slot ?t1 bi = Inr a" using a by (simp add: at_slot_iff)
  have h1: "b_depth (heap ?t1 ! a) = Suc (b_depth (heap t ! a))"
    using al by (simp add: IncrementDepth_def)
  from split_grown_runs [where t = ?t1 and bi = bi and a = a and h = h, OF a1]
  obtain t' where r: "split_grown h ?t1 bi a = Inr t'"
    and g: "global_depth t' = global_depth ?t1"
    and d: "dir t' = (dir ?t1)[(bi OR 2 ^ (b_depth (heap ?t1 ! a) - 1)) := Some (length (heap ?t1))]"
    and l: "length (heap t') = Suc (length (heap ?t1))"
    and b: "\<forall>y < length (heap ?t1). b_depth (heap t' ! y) = b_depth (heap ?t1 ! y)"
    and n: "b_depth (heap t' ! length (heap ?t1)) = b_depth (heap ?t1 ! a)"
    using d31 rng unfolding h1 by auto
  have "\<forall>y < length (heap t). b_depth (heap t' ! y) =
               (if y = a then Suc (b_depth (heap t ! a)) else b_depth (heap t ! y))"
    using b by (simp add: nth_list_update IncrementDepth_def)
  then show ?thesis using r g d l n unfolding h1 by (simp add: split_below_def)
qed

text \<open>The slots after a split has stored its sibling in slot \<open>w\<close>.\<close>

lemma at_slot_after_write:
  assumes "dir t' = (dir t)[w := Some (length (heap t))]"
    and "length (heap t') = Suc (length (heap t))"
  shows "w < length (dir t) \<Longrightarrow> at_slot t' w = Inr (length (heap t))"
    and "j \<noteq> w \<Longrightarrow> at_slot t j = Inr a \<Longrightarrow> at_slot t' j = Inr a"
  using assms by (simp_all add: at_slot_iff)

lemma same_slots:
  assumes "dir t' = dir t" and "global_depth t' = global_depth t"
    and "length (heap t') = length (heap t)"
    and "\<forall>y < length (heap t). b_depth (heap t' ! y) = b_depth (heap t ! y)"
  shows "slot_ok t' j = slot_ok t j" and "slot_depth t' j = slot_depth t j"
proof -
  have e: "at_slot t' j = at_slot t j" using assms(1,3) by (rule at_slot_cong)
  show "slot_ok t' j = slot_ok t j"
  proof (cases "at_slot t j")
    case (Inl e)
    then show ?thesis by (simp add: slot_ok_def e)
  next
    case (Inr a)
    then have "a < length (heap t)" by (simp add: at_slot_iff)
    then show ?thesis using assms(2,4) Inr by (simp add: slot_ok_def e)
  qed
  show "slot_depth t' j = slot_depth t j"
  proof (cases "at_slot t j")
    case (Inl e)
    then show ?thesis by (simp add: slot_depth_def e)
  next
    case (Inr a)
    then have "a < length (heap t)" by (simp add: at_slot_iff)
    then show ?thesis using assms(4) Inr by (simp add: slot_depth_def e)
  qed
qed

lemma slots_after_split:
  assumes g: "global_depth t' = global_depth t"
    and d: "dir t' = (dir t)[w := Some (length (heap t))]"
    and l: "length (heap t') = Suc (length (heap t))"
    and b: "\<forall>y < length (heap t). b_depth (heap t ! y) \<le> b_depth (heap t' ! y) \<and>
              (b_depth (heap t ! y) \<le> global_depth t \<longrightarrow> b_depth (heap t' ! y) \<le> global_depth t)"
    and n: "b_depth (heap t' ! length (heap t)) = dn"
  shows "j \<noteq> w \<Longrightarrow> slot_ok t j \<Longrightarrow> slot_ok t' j \<and> slot_depth t j \<le> slot_depth t' j"
    and "w < length (dir t) \<Longrightarrow> dn \<le> global_depth t \<Longrightarrow> slot_ok t' w \<and> slot_depth t' w = dn"
proof -
  show "slot_ok t' j \<and> slot_depth t j \<le> slot_depth t' j" if "j \<noteq> w" "slot_ok t j"
  proof -
    from that(2) obtain a where a: "at_slot t j = Inr a" and da: "b_depth (heap t ! a) \<le> global_depth t"
      by (auto simp: slot_ok_iff)
    have a': "at_slot t' j = Inr a" using at_slot_after_write(2) [OF d l that(1) a] .
    have al: "a < length (heap t)" using a by (simp add: at_slot_iff)
    show ?thesis using b al da g by (simp add: slot_ok_iff slot_depth_def a a')
  qed
  show "slot_ok t' w \<and> slot_depth t' w = dn" if "w < length (dir t)" "dn \<le> global_depth t"
  proof -
    have "at_slot t' w = Inr (length (heap t))" using at_slot_after_write(1) [OF d l that(1)] .
    then show ?thesis using n g that(2) by (simp add: slot_ok_iff slot_depth_def)
  qed
qed

lemma take_bit_less_exp_le: "g \<le> n \<Longrightarrow> take_bit g (x::nat) < 2 ^ n"
proof -
  assume "g \<le> n"
  have "take_bit g x < 2 ^ g" by (rule take_bit_nat_less_exp)
  also have "(2::nat) ^ g \<le> 2 ^ n" using \<open>g \<le> n\<close> by simp
  finally show ?thesis .
qed

lemma split_below_keeps_key_slots:
  assumes ks: "key_slots_ok x t"
    and a: "at_slot t (take_bit (global_depth t) x) = Inr a"
    and dl: "b_depth (heap t ! a) < global_depth t"
  shows "\<exists>t'. split_below h t (take_bit (global_depth t) x) a = Inr t' \<and> key_slots_ok x t' \<and>
           global_depth t' = global_depth t \<and>
           (\<forall>g \<le> global_depth t. slot_depth t (take_bit g x) \<le> slot_depth t' (take_bit g x))"
proof -
  let ?gd = "global_depth t" and ?d = "b_depth (heap t ! a)"
  let ?bi = "take_bit ?gd x"
  let ?w = "?bi OR 2 ^ ?d"
  have gd: "?gd < 31" and len: "length (dir t) = 2 ^ ?gd"
    and ok: "\<And>g. g \<le> ?gd \<Longrightarrow> slot_ok t (take_bit g x)"
    using ks by (simp_all add: key_slots_ok_def)
  have "?bi < 2 ^ ?gd" by (rule take_bit_nat_less_exp)
  moreover have "(2::nat) ^ ?d < 2 ^ ?gd" using dl by simp
  ultimately have w: "?w < length (dir t)" unfolding len by (rule or_less_exp)
  have d31: "?d < 31" using dl gd by simp
  from split_below_runs [OF a d31 w, of h] obtain t' where
    r: "split_below h t ?bi a = Inr t'" and g: "global_depth t' = ?gd"
    and d: "dir t' = (dir t)[?w := Some (length (heap t))]"
    and l: "length (heap t') = Suc (length (heap t))"
    and b: "\<forall>y < length (heap t). b_depth (heap t' ! y) = (if y = a then Suc ?d else b_depth (heap t ! y))"
    and n: "b_depth (heap t' ! length (heap t)) = Suc ?d"
    by blast
  have b': "\<forall>y < length (heap t). b_depth (heap t ! y) \<le> b_depth (heap t' ! y) \<and>
              (b_depth (heap t ! y) \<le> ?gd \<longrightarrow> b_depth (heap t' ! y) \<le> ?gd)"
    using b dl by auto
  note after = slots_after_split [OF g d l b' n]
  have step: "slot_ok t' (take_bit k x) \<and> slot_depth t (take_bit k x) \<le> slot_depth t' (take_bit k x)"
    if k: "k \<le> ?gd" for k
  proof (cases "take_bit k x = ?w")
    case False
    then show ?thesis using after(1) [OF False ok [OF k]] by simp
  next
    case True
    then have "?w = ?bi" using prefix_or_exp [of k x ?gd ?d] dl by simp
    then have "slot_depth t (take_bit k x) = ?d" using True a by (simp add: slot_depth_def)
    moreover have "slot_ok t' ?w \<and> slot_depth t' ?w = Suc ?d" using after(2) [OF w] dl by simp
    ultimately show ?thesis using True by simp
  qed
  have "key_slots_ok x t'" using step gd len g d by (simp add: key_slots_ok_def)
  then show ?thesis using r g step by blast
qed

lemma grow_directory_loop_inv:
  assumes ks: "key_slots_ok x t"
    and a: "at_slot t (take_bit (global_depth t) x) = Inr a"
    and d: "b_depth (heap t ! a) = global_depth t"
    and lt: "global_depth t < 30"
  shows "loop_inv x (global_depth t) (2 ^ global_depth t) (grow_directory t a)"
    and "\<forall>g \<le> global_depth t. slot_depth t (take_bit g x) \<le> slot_depth (grow_directory t a) (take_bit g x)"
    and "global_depth (grow_directory t a) = Suc (global_depth t)"
proof -
  let ?gd = "global_depth t" and ?tg = "grow_directory t a"
  let ?bi = "take_bit ?gd x"
  have len: "length (dir t) = 2 ^ ?gd"
    and ok: "\<And>g. g \<le> ?gd \<Longrightarrow> slot_ok t (take_bit g x)"
    using ks by (simp_all add: key_slots_ok_def)
  have al: "a < length (heap t)" using a by (simp add: at_slot_iff)
  show g': "global_depth ?tg = Suc ?gd" by (simp add: grow_directory_def)
  have len': "length (dir ?tg) = 2 ^ Suc ?gd" by (simp add: grow_directory_def push_bit_of_1)
  have hl: "length (heap ?tg) = length (heap t)" by (simp add: grow_directory_def)
  have dep: "b_depth (heap ?tg ! y) = (if y = a then Suc ?gd else b_depth (heap t ! y))"
    if "y < length (heap t)" for y
    using that d by (simp add: grow_directory_def nth_list_update IncrementDepth_def)
  have low: "slot_ok ?tg j \<and> slot_depth t j \<le> slot_depth ?tg j" if j: "j < 2 ^ ?gd" and s: "slot_ok t j" for j
  proof -
    from s obtain b where b: "at_slot t j = Inr b" and db: "b_depth (heap t ! b) \<le> ?gd"
      by (auto simp: slot_ok_iff)
    have bl: "b < length (heap t)" using b by (simp add: at_slot_iff)
    have "dir ?tg ! j = dir t ! j"
      using j len by (simp add: grow_directory_def nth_resize push_bit_of_1)
    then have b': "at_slot ?tg j = Inr b"
      using b j len' hl by (simp add: at_slot_iff)
    show ?thesis using dep [OF bl] db d by (simp add: slot_ok_iff slot_depth_def b b' g')
  qed
  have pre: "slot_ok ?tg (take_bit g x) \<and> slot_depth t (take_bit g x) \<le> slot_depth ?tg (take_bit g x)"
    if "g \<le> ?gd" for g
    using low [OF take_bit_less_exp_le [OF that] ok [OF that]] .
  show "\<forall>g \<le> ?gd. slot_depth t (take_bit g x) \<le> slot_depth ?tg (take_bit g x)"
    using pre by blast
  have bi: "?bi < 2 ^ ?gd" by (rule take_bit_nat_less_exp)
  have bi2: "?bi < 2 * 2 ^ ?gd" using take_bit_less_exp_le [of ?gd "Suc ?gd" x] by simp
  then have "dir ?tg ! ?bi = dir t ! ?bi"
    using len by (simp add: grow_directory_def nth_resize push_bit_of_1)
  then have "at_slot ?tg ?bi = Inr a" using a bi2 len' hl by (simp add: at_slot_iff)
  then have sd: "slot_depth ?tg ?bi = Suc ?gd" using dep [OF al] by (simp add: slot_depth_def)
  show "loop_inv x ?gd (2 ^ ?gd) ?tg"
    using g' len' lt pre sd by (simp add: loop_inv_def)
qed

lemma take_bit_add_exp: "take_bit n (a + 2 ^ n) = take_bit n (a::nat)"
  by (simp add: take_bit_eq_mod)

lemma loop_inv_copy:
  assumes li: "loop_inv x g0 i t" and il: "i < length (dir t)"
    and ne: "take_bit g0 i \<noteq> take_bit g0 x"
  shows "loop_inv x g0 (i + 1) (t\<lparr>dir := (dir t)[i := dir t ! take_bit g0 i]\<rparr>)"
    and "\<forall>g \<le> g0. slot_depth (t\<lparr>dir := (dir t)[i := dir t ! take_bit g0 i]\<rparr>) (take_bit g x) =
                   slot_depth t (take_bit g x)"
proof -
  let ?tc = "t\<lparr>dir := (dir t)[i := dir t ! take_bit g0 i]\<rparr>"
  let ?bi = "take_bit g0 x"
  have g0: "g0 < global_depth t" and gd: "global_depth t < 31"
    and len: "length (dir t) = 2 ^ global_depth t" and i0: "2 ^ g0 \<le> i"
    and okb: "slot_ok t ?bi" and db: "g0 + 1 \<le> slot_depth t ?bi"
    using li by (simp_all add: loop_inv_def)
  have same: "at_slot ?tc j = at_slot t j" if "j \<noteq> i" for j
    using that by (simp add: at_slot_def split: option.splits)
  have sok: "slot_ok ?tc j = slot_ok t j" and sdp: "slot_depth ?tc j = slot_depth t j" if "j \<noteq> i" for j
    using same [OF that] by (simp_all add: slot_ok_def slot_depth_def split: sum.splits)
  have lowne: "take_bit g x \<noteq> i" if "g \<le> g0" for g
    using take_bit_less_exp_le [OF that, of x] i0 by simp
  have prene: "take_bit g x \<noteq> i" for g
  proof (cases "g \<le> g0")
    case True
    then show ?thesis by (rule lowne)
  next
    case False
    show ?thesis
    proof
      assume e: "take_bit g x = i"
      have "take_bit g0 (take_bit g x) = take_bit g0 x" using False by (simp add: min_def)
      then show False using ne e by simp
    qed
  qed
  show "\<forall>g \<le> g0. slot_depth ?tc (take_bit g x) = slot_depth t (take_bit g x)"
    using sdp [OF lowne] by blast
  show "loop_inv x g0 (i + 1) ?tc"
  proof (cases "i + 1 \<le> ?bi + 2 ^ g0")
    case True
    then have "i \<le> ?bi + 2 ^ g0" by simp
    then have "global_depth t = g0 + 1" "slot_depth t ?bi = g0 + 1" "\<forall>g \<le> g0. slot_ok t (take_bit g x)"
      using li by (simp_all add: loop_inv_def)
    then show ?thesis
      using True g0 gd len i0 okb sok [OF lowne] sdp [OF lowne [of g0]]
      by (simp add: loop_inv_def)
  next
    case False
    have "i \<noteq> ?bi + 2 ^ g0"
    proof
      assume "i = ?bi + 2 ^ g0"
      then have "take_bit g0 i = take_bit g0 ?bi" by (simp add: take_bit_add_exp)
      then show False using ne by simp
    qed
    then have "\<not> i \<le> ?bi + 2 ^ g0" using False by simp
    then have ks: "key_slots_ok x t" using li by (simp add: loop_inv_def)
    then have "key_slots_ok x ?tc" using sok [OF prene] by (simp add: key_slots_ok_def)
    then show ?thesis
      using False g0 gd len i0 okb db sok [OF lowne [of g0]] sdp [OF lowne [of g0]]
      by (simp add: loop_inv_def)
  qed
qed

lemma loop_inv_exit:
  assumes li: "loop_inv x g0 i t" and il: "\<not> i < length (dir t)"
  shows "key_slots_ok x t"
proof (cases "i \<le> take_bit g0 x + 2 ^ g0")
  case False
  then show ?thesis using li by (simp add: loop_inv_def)
next
  case True
  then have "global_depth t = g0 + 1" and "length (dir t) = 2 ^ global_depth t"
    using li by (simp_all add: loop_inv_def)
  then have l: "length (dir t) = 2 ^ g0 + 2 ^ g0" by simp
  have "i < 2 ^ g0 + 2 ^ g0" using True take_bit_nat_less_exp [of g0 x] by linarith
  then show ?thesis using il l by simp
qed

lemma loop_inv_next:
  assumes "key_slots_ok x t" and "g0 < global_depth t" and "g0 + 1 \<le> slot_depth t (take_bit g0 x)"
    and "take_bit g0 x + 2 ^ g0 \<le> i"
  shows "loop_inv x g0 (i + 1) t"
  using assms by (simp add: loop_inv_def key_slots_ok_def)

lemma loop_inv_split:
  assumes li: "loop_inv x g0 i t" and il: "i < length (dir t)"
    and eq: "take_bit g0 i = take_bit g0 x"
  shows "\<exists>a t'. at_slot t (take_bit g0 x) = Inr a \<and> split_grown h t (take_bit g0 x) a = Inr t' \<and>
           key_slots_ok x t' \<and> global_depth t' = global_depth t \<and>
           g0 + 1 \<le> slot_depth t' (take_bit g0 x) \<and>
           (\<forall>g \<le> g0. slot_depth t (take_bit g x) \<le> slot_depth t' (take_bit g x)) \<and>
           take_bit g0 x + 2 ^ g0 \<le> i"
proof -
  let ?bi = "take_bit g0 x" and ?gd = "global_depth t"
  have g0: "g0 < ?gd" and gd: "?gd < 31"
    and len: "length (dir t) = 2 ^ ?gd" and i0: "2 ^ g0 \<le> i"
    and okb: "slot_ok t ?bi" and db: "g0 + 1 \<le> slot_depth t ?bi"
    using li by (simp_all add: loop_inv_def)
  from okb obtain a where a: "at_slot t ?bi = Inr a" and dle: "b_depth (heap t ! a) \<le> ?gd"
    by (auto simp: slot_ok_iff)
  let ?dA = "b_depth (heap t ! a)"
  have sdb: "slot_depth t ?bi = ?dA" using a by (simp add: slot_depth_def)
  have dA: "g0 + 1 \<le> ?dA" using db sdb by simp
  have ige: "?bi + 2 ^ g0 \<le> i" using eq i0 by (rule take_bit_ge)
  have bil: "?bi < 2 ^ (?dA - 1)"
    using dA by (intro take_bit_less_exp_le) simp
  have wadd: "?bi OR 2 ^ (?dA - 1) = ?bi + 2 ^ (?dA - 1)" using bil by (rule or_exp_add)
  let ?w = "?bi OR 2 ^ (?dA - 1)"
  have "?bi < 2 ^ ?gd" using g0 by (intro take_bit_less_exp_le) simp
  moreover have "(2::nat) ^ (?dA - 1) < 2 ^ ?gd" using dA dle by simp
  ultimately have w: "?w < length (dir t)" unfolding len by (rule or_less_exp)
  have d0: "0 < ?dA" and d31: "?dA \<le> 31" using dA dle gd by simp_all
  from split_grown_runs [OF a d0 d31 w, of h] obtain t' where
    r: "split_grown h t ?bi a = Inr t'" and g: "global_depth t' = ?gd"
    and d: "dir t' = (dir t)[?w := Some (length (heap t))]"
    and l: "length (heap t') = Suc (length (heap t))"
    and b: "\<forall>y < length (heap t). b_depth (heap t' ! y) = b_depth (heap t ! y)"
    and n: "b_depth (heap t' ! length (heap t)) = ?dA"
    by blast
  have b': "\<forall>y < length (heap t). b_depth (heap t ! y) \<le> b_depth (heap t' ! y) \<and>
              (b_depth (heap t ! y) \<le> ?gd \<longrightarrow> b_depth (heap t' ! y) \<le> ?gd)"
    using b by simp
  note after = slots_after_split [OF g d l b' n]
  have wge: "2 ^ g0 \<le> ?w"
  proof -
    have "g0 \<le> ?dA - 1" using dA by simp
    then have "(2::nat) ^ g0 \<le> 2 ^ (?dA - 1)" by (rule power_increasing) simp
    then have "(2::nat) ^ g0 \<le> ?bi + 2 ^ (?dA - 1)" by (rule trans_le_add2)
    then show ?thesis unfolding wadd .
  qed
  have lowne: "take_bit k x \<noteq> ?w" if "k \<le> g0" for k
    using take_bit_less_exp_le [OF that, of x] wge by simp
  have lowok: "slot_ok t (take_bit k x)" if "k \<le> g0" for k
  proof (cases "i \<le> ?bi + 2 ^ g0")
    case True
    then show ?thesis using li that by (simp add: loop_inv_def)
  next
    case False
    then have "key_slots_ok x t" using li by (simp add: loop_inv_def)
    then show ?thesis using that g0 by (simp add: key_slots_ok_def)
  qed
  have low: "slot_ok t' (take_bit k x) \<and> slot_depth t (take_bit k x) \<le> slot_depth t' (take_bit k x)"
    if "k \<le> g0" for k
    using after(1) [OF lowne [OF that] lowok [OF that]] .
  have new: "slot_ok t' ?w" using after(2) [OF w dle] by simp
  have all: "slot_ok t' (take_bit k x)" if k: "k \<le> ?gd" for k
  proof (cases "take_bit k x = ?w")
    case True
    then show ?thesis using new by simp
  next
    case ne: False
    show ?thesis
    proof (cases "i \<le> ?bi + 2 ^ g0")
      case False
      then have "key_slots_ok x t" using li by (simp add: loop_inv_def)
      then have "slot_ok t (take_bit k x)" using k by (simp add: key_slots_ok_def)
      then show ?thesis using after(1) [OF ne] by simp
    next
      case True
      then have gd1: "?gd = g0 + 1" and sd1: "slot_depth t ?bi = g0 + 1"
        using li by (simp_all add: loop_inv_def)
      show ?thesis
      proof (cases "k \<le> g0")
        case True
        then show ?thesis using low by simp
      next
        case False
        then have ks: "k = Suc g0" using k gd1 by simp
        have "?dA = Suc g0" using sd1 sdb by simp
        then have "?w = ?bi + 2 ^ g0" using wadd by simp
        then have "take_bit k x = ?bi" using take_bit_Suc_cases [of g0 x] ne ks by auto
        then show ?thesis using low [of g0] by simp
      qed
    qed
  qed
  have "key_slots_ok x t'" using all gd len g d by (simp add: key_slots_ok_def)
  moreover have "g0 + 1 \<le> slot_depth t' ?bi" using low [of g0] db by simp
  ultimately show ?thesis using a r g low ige by blast
qed

text \<open>
  The outcome carries over from a state to the state a step has left it in. With it, by
  induction on the fuel: a run of \<open>Insert\<close> that ends, on a table whose slots for the key are
  in order, ends with a table or with \<open>std::length_error\<close>; inside the loop, under
  \<open>loop_inv\<close>.
\<close>

lemma returns_or_throws_trans:
  assumes "returns_or_throws x t' g r" and "global_depth t \<le> global_depth t'"
    and "\<forall>k \<le> g. slot_depth t (take_bit k x) \<le> slot_depth t' (take_bit k x)"
  shows "returns_or_throws x t g r"
proof (cases "r = Inl LengthError")
  case True
  then show ?thesis by (simp add: returns_or_throws_def)
next
  case False
  then obtain s where s: "r = Inr s" "key_slots_ok x s" "global_depth t' \<le> global_depth s"
    and m: "\<forall>k \<le> g. slot_depth t' (take_bit k x) \<le> slot_depth s (take_bit k x)"
    using assms(1) by (auto simp: returns_or_throws_def)
  have "\<forall>k \<le> g. slot_depth t (take_bit k x) \<le> slot_depth s (take_bit k x)"
    using assms(3) m by (meson order_trans)
  then show ?thesis using s assms(2) by (auto simp: returns_or_throws_def)
qed

lemma Insert_returns_or_throws_aux:
  "(\<forall>t r. key_slots_ok (h key) t \<longrightarrow> Insert n h key value t = r \<longrightarrow> r \<noteq> Inl OutOfFuel \<longrightarrow>
           returns_or_throws (h key) t (global_depth t) r) \<and>
   (\<forall>t r g0 i. loop_inv (h key) g0 i t \<longrightarrow>
           Insert_grow n h key value (2 ^ g0 - 1) (take_bit g0 (h key)) i t = r \<longrightarrow>
           r \<noteq> Inl OutOfFuel \<longrightarrow> returns_or_throws (h key) t g0 r)"
proof (induction n)
  case 0
  show ?case by simp
next
  case (Suc n)
  note IH1 = Suc [THEN conjunct1, rule_format]
  note IH2 = Suc [THEN conjunct2, rule_format]
  let ?x = "h key"
  have A: "returns_or_throws ?x t (global_depth t) r"
    if ks: "key_slots_ok ?x t" and run: "Insert (Suc n) h key value t = r" and ne: "r \<noteq> Inl OutOfFuel"
    for t r
  proof -
    let ?gd = "global_depth t"
    let ?bi = "take_bit ?gd ?x"
    have gd: "?gd < 31" using ks by (simp add: key_slots_ok_def)
    have bi: "IndexOf h t key = Inr ?bi" using gd by (rule IndexOf_eq)
    have "slot_ok t ?bi" using ks by (simp add: key_slots_ok_def)
    then obtain a where a: "at_slot t ?bi = Inr a" and dle: "b_depth (heap t ! a) \<le> ?gd"
      by (auto simp: slot_ok_iff)
    have al: "a < length (heap t)" using a by (simp add: at_slot_iff)
    let ?b = "heap t ! a"
    have unf: "r =
       (if fst (Bucket_Find ?b key value) then Inr t
        else if \<not> IsFull ?b then
          Inr (t\<lparr>heap := (heap t)[a := snd (Bucket_Insert ?b key value)]\<rparr>)
        else if b_depth ?b = ?gd then
          (if ?gd + 1 = 31 then Inl LengthError
           else Insert_grow n h key value (2 ^ ?gd - 1) ?bi (2 ^ ?gd) (grow_directory t a))
        else
          (case split_below h t ?bi a of
             Inl e \<Rightarrow> Inl e
           | Inr t3 \<Rightarrow> Insert n h key value t3))"
      by (simp only: run [symmetric] Insert_Suc bi a sum.case push_bit_of_1)
    consider (found) "fst (Bucket_Find ?b key value)"
      | (room) "\<not> fst (Bucket_Find ?b key value)" "\<not> IsFull ?b"
      | (grows) "\<not> fst (Bucket_Find ?b key value)" "IsFull ?b" "b_depth ?b = ?gd"
      | (splits) "\<not> fst (Bucket_Find ?b key value)" "IsFull ?b" "b_depth ?b \<noteq> ?gd"
      by blast
    then show ?thesis
    proof cases
      case found
      then have "r = Inr t" using unf by simp
      then show ?thesis using ks by (simp add: returns_or_throws_def)
    next
      case room
      let ?t' = "t\<lparr>heap := (heap t)[a := snd (Bucket_Insert ?b key value)]\<rparr>"
      have r: "r = Inr ?t'" using unf room by simp
      have "\<forall>y < length (heap t). b_depth (heap ?t' ! y) = b_depth (heap t ! y)"
        using al by (auto simp: nth_list_update)
      then have same: "slot_ok ?t' j = slot_ok t j" "slot_depth ?t' j = slot_depth t j" for j
        by (intro same_slots; simp)+
      have "key_slots_ok ?x ?t'" using ks same by (simp add: key_slots_ok_def)
      then show ?thesis using r same by (simp add: returns_or_throws_def)
    next
      case grows
      show ?thesis
      proof (cases "?gd + 1 = 31")
        case True
        then have "r = Inl LengthError" using unf grows by simp
        then show ?thesis by (simp add: returns_or_throws_def)
      next
        case False
        then have lt: "?gd < 30" using gd by simp
        let ?tg = "grow_directory t a"
        have r: "Insert_grow n h key value (2 ^ ?gd - 1) ?bi (2 ^ ?gd) ?tg = r"
          using unf grows False by simp
        note G = grow_directory_loop_inv [OF ks a grows(3) lt]
        have "returns_or_throws ?x ?tg ?gd r" using IH2 [OF G(1) r ne] .
        then show ?thesis by (rule returns_or_throws_trans) (use G(2,3) in simp_all)
      qed
    next
      case splits
      then have dl: "b_depth ?b < ?gd" using dle by simp
      from split_below_keeps_key_slots [OF ks a dl, of h] obtain t3 where
        t3: "split_below h t ?bi a = Inr t3" and ks3: "key_slots_ok ?x t3"
        and g3: "global_depth t3 = ?gd"
        and m3: "\<forall>g \<le> ?gd. slot_depth t (take_bit g ?x) \<le> slot_depth t3 (take_bit g ?x)"
        by blast
      have r: "Insert n h key value t3 = r" using unf splits t3 by simp
      have "returns_or_throws ?x t3 (global_depth t3) r" using IH1 [OF ks3 r ne] .
      then have "returns_or_throws ?x t3 ?gd r" using g3 by simp
      then show ?thesis by (rule returns_or_throws_trans) (use g3 m3 in simp_all)
    qed
  qed
  have B: "returns_or_throws ?x t g0 r"
    if li: "loop_inv ?x g0 i t"
      and run: "Insert_grow (Suc n) h key value (2 ^ g0 - 1) (take_bit g0 ?x) i t = r"
      and ne: "r \<noteq> Inl OutOfFuel"
    for t r g0 i
  proof (cases "i < length (dir t)")
    case False
    then have "r = Inr t" using run by (simp add: Insert_grow_Suc)
    then show ?thesis using loop_inv_exit [OF li False] by (simp add: returns_or_throws_def)
  next
    case il: True
    have msk: "i AND (2 ^ g0 - 1) = take_bit g0 i" by (rule and_low_bits)
    show ?thesis
    proof (cases "take_bit g0 i = take_bit g0 ?x")
      case False
      let ?tc = "t\<lparr>dir := (dir t)[i := dir t ! take_bit g0 i]\<rparr>"
      have r: "Insert_grow n h key value (2 ^ g0 - 1) (take_bit g0 ?x) (i + 1) ?tc = r"
        using run il False by (simp add: Insert_grow_Suc msk and_low_bits_Suc)
      note C = loop_inv_copy [OF li il False]
      have "returns_or_throws ?x ?tc g0 r" using IH2 [OF C(1) r ne] .
      then show ?thesis by (rule returns_or_throws_trans) (use C(2) in simp_all)
    next
      case eq: True
      from loop_inv_split [OF li il eq, of h] obtain a t2 where
        a: "at_slot t (take_bit g0 ?x) = Inr a" and t2: "split_grown h t (take_bit g0 ?x) a = Inr t2"
        and ks2: "key_slots_ok ?x t2" and g2: "global_depth t2 = global_depth t"
        and d2: "g0 + 1 \<le> slot_depth t2 (take_bit g0 ?x)"
        and m2: "\<forall>g \<le> g0. slot_depth t (take_bit g ?x) \<le> slot_depth t2 (take_bit g ?x)"
        and ige: "take_bit g0 ?x + 2 ^ g0 \<le> i"
        by blast
      have g0: "g0 < global_depth t" using li by (simp add: loop_inv_def)
      have e: "r = (case Insert n h key value t2 of
                      Inl e \<Rightarrow> Inl e
                    | Inr t3 \<Rightarrow> Insert_grow n h key value (2 ^ g0 - 1) (take_bit g0 ?x) (i + 1) t3)"
        using run il eq a t2 by (auto simp: Insert_grow_Suc msk and_low_bits_Suc split: sum.splits)
      show ?thesis
      proof (cases "Insert n h key value t2")
        case (Inl err)
        then have re: "r = Inl err" using e by simp
        then have "err \<noteq> OutOfFuel" using ne by simp
        then have "returns_or_throws ?x t2 (global_depth t2) (Inl err)"
          using IH1 [OF ks2 Inl] by simp
        then have "err = LengthError" by (simp add: returns_or_throws_def)
        then show ?thesis using re by (simp add: returns_or_throws_def)
      next
        case (Inr t3)
        then have "returns_or_throws ?x t2 (global_depth t2) (Inr t3)"
          using IH1 [OF ks2 Inr] by simp
        then have ks3: "key_slots_ok ?x t3" and g3: "global_depth t2 \<le> global_depth t3"
          and m3: "\<forall>g \<le> global_depth t2. slot_depth t2 (take_bit g ?x) \<le> slot_depth t3 (take_bit g ?x)"
          by (auto simp: returns_or_throws_def)
        have r: "Insert_grow n h key value (2 ^ g0 - 1) (take_bit g0 ?x) (i + 1) t3 = r"
          using e Inr by simp
        have "g0 \<le> global_depth t2" using g0 g2 by simp
        then have "slot_depth t2 (take_bit g0 ?x) \<le> slot_depth t3 (take_bit g0 ?x)"
          using m3 by blast
        then have d3: "g0 + 1 \<le> slot_depth t3 (take_bit g0 ?x)"
          using d2 by linarith
        have g03: "g0 < global_depth t3" using g0 g2 g3 by simp
        have li3: "loop_inv ?x g0 (i + 1) t3" using ks3 g03 d3 ige by (rule loop_inv_next)
        have rt3: "returns_or_throws ?x t3 g0 r" using li3 r ne by (rule IH2)
        have gle: "global_depth t \<le> global_depth t3" using g2 g3 by simp
        have mono: "\<forall>g \<le> g0. slot_depth t (take_bit g ?x) \<le> slot_depth t3 (take_bit g ?x)"
        proof (intro allI impI)
          fix g assume g: "g \<le> g0"
          then have "g \<le> global_depth t2" using g0 g2 by simp
          then have "slot_depth t2 (take_bit g ?x) \<le> slot_depth t3 (take_bit g ?x)"
            using m3 by blast
          moreover have "slot_depth t (take_bit g ?x) \<le> slot_depth t2 (take_bit g ?x)"
            using m2 g by blast
          ultimately show "slot_depth t (take_bit g ?x) \<le> slot_depth t3 (take_bit g ?x)"
            by linarith
        qed
        show ?thesis using rt3 gle mono by (rule returns_or_throws_trans)
      qed
    qed
  qed
  show ?case using A B by blast
qed

section \<open>Reachable tables are well formed\<close>

text \<open>What a split that returns has done, read off its result.\<close>

lemma nth_resize_cases: "j < n \<Longrightarrow> resize n xs ! j = (if j < length xs then xs ! j else None)"
  by (simp add: resize_def nth_append)

lemma split_grown_Inr:
  assumes a: "at_slot t bi = Inr a" and r: "split_grown h t bi a = Inr t'"
  shows "\<exists>w < length (dir t).
           w = (bi OR 2 ^ (b_depth (heap t ! a) - 1)) \<and>
           global_depth t' = global_depth t \<and>
           dir t' = (dir t)[w := Some (length (heap t))] \<and>
           length (heap t') = Suc (length (heap t)) \<and>
           (\<forall>y < length (heap t). b_depth (heap t' ! y) = b_depth (heap t ! y)) \<and>
           b_depth (heap t' ! length (heap t)) = b_depth (heap t ! a)"
proof -
  let ?t2 = "t\<lparr>heap := heap t @ [Bucket (bucket_size t) (GetDepth (heap t ! a))]\<rparr>"
  have al: "a < length (heap t)" using a by (simp add: at_slot_iff)
  have a2: "at_slot ?t2 bi = Inr a" using a by (simp add: at_slot_iff)
  from RedistributeBucket_Inr [OF r [unfolded split_grown_def]] a2
  have "0 < b_depth (heap ?t2 ! a)" and "b_depth (heap ?t2 ! a) \<le> 31"
    and "(bi OR 2 ^ (b_depth (heap ?t2 ! a) - 1)) < length (dir ?t2)"
    by auto
  then have d0: "0 < b_depth (heap t ! a)" and d31: "b_depth (heap t ! a) \<le> 31"
    and rng: "(bi OR 2 ^ (b_depth (heap t ! a) - 1)) < length (dir t)"
    using al by (simp_all add: nth_append)
  from split_grown_runs [OF a d0 d31 rng, of h] r rng show ?thesis by auto
qed

lemma split_below_Inr:
  assumes a: "at_slot t bi = Inr a" and r: "split_below h t bi a = Inr t'"
  shows "\<exists>w < length (dir t).
           global_depth t' = global_depth t \<and>
           dir t' = (dir t)[w := Some (length (heap t))] \<and>
           length (heap t') = Suc (length (heap t)) \<and>
           (\<forall>y < length (heap t). b_depth (heap t' ! y) =
               (if y = a then Suc (b_depth (heap t ! a)) else b_depth (heap t ! y))) \<and>
           b_depth (heap t' ! length (heap t)) = Suc (b_depth (heap t ! a))"
proof -
  let ?t1 = "t\<lparr>heap := (heap t)[a := IncrementDepth (heap t ! a)]\<rparr>"
  have al: "a < length (heap t)" using a by (simp add: at_slot_iff)
  have a1: "at_slot ?t1 bi = Inr a" using a by (simp add: at_slot_iff)
  have d1: "b_depth (heap ?t1 ! a) = Suc (b_depth (heap t ! a))"
    using al by (simp add: IncrementDepth_def)
  from split_grown_Inr [OF a1 r [unfolded split_below_def]] obtain w where
    w: "w < length (dir t)" and g: "global_depth t' = global_depth t"
    and d: "dir t' = (dir t)[w := Some (length (heap t))]"
    and l: "length (heap t') = Suc (length (heap t))"
    and o: "\<forall>y < length (heap t). b_depth (heap t' ! y) = b_depth (heap ?t1 ! y)"
    and n: "b_depth (heap t' ! length (heap t)) = b_depth (heap ?t1 ! a)"
    by auto
  have "\<forall>y < length (heap t). b_depth (heap t' ! y) =
               (if y = a then Suc (b_depth (heap t ! a)) else b_depth (heap t ! y))"
    using o al by (simp add: IncrementDepth_def nth_list_update)
  then show ?thesis using w g d l n d1 by auto
qed

text \<open>\<open>dir_entries_ok\<close> is kept by every step of \<open>Insert\<close>.\<close>

lemma dir_entries_ok_split:
  assumes I: "dir_entries_ok t"
    and w: "w < length (dir t)" and g: "global_depth t' = global_depth t"
    and d: "dir t' = (dir t)[w := Some (length (heap t))]"
    and l: "length (heap t') = Suc (length (heap t))"
    and o: "\<forall>y < length (heap t). b_depth (heap t ! y) \<le> global_depth t \<longrightarrow>
               b_depth (heap t' ! y) \<le> global_depth t"
    and n: "b_depth (heap t' ! length (heap t)) \<le> global_depth t"
  shows "dir_entries_ok t'"
  unfolding dir_entries_ok_def
proof (intro allI impI)
  fix j assume j: "j < length (dir t')"
  then have jl: "j < length (dir t)" using d by simp
  show "case dir t' ! j of None \<Rightarrow> True
        | Some a \<Rightarrow> a < length (heap t') \<and> b_depth (heap t' ! a) \<le> global_depth t'"
  proof (cases "j = w")
    case True
    then show ?thesis using d w l n g by simp
  next
    case False
    then have e: "dir t' ! j = dir t ! j" using d by simp
    show ?thesis
    proof (cases "dir t ! j")
      case None
      then show ?thesis using e by simp
    next
      case (Some a)
      then have "a < length (heap t) \<and> b_depth (heap t ! a) \<le> global_depth t"
        using I jl by (auto simp: dir_entries_ok_def split: option.splits)
      then show ?thesis using e Some o l g by simp
    qed
  qed
qed

lemma dir_entries_ok_at_slot:
  "dir_entries_ok t \<Longrightarrow> at_slot t bi = Inr a \<Longrightarrow> b_depth (heap t ! a) \<le> global_depth t"
  by (auto simp: dir_entries_ok_def at_slot_iff split: option.splits)

lemma dir_entries_ok_Insert:
  assumes "dir_entries_ok t" and "Insert n h key value t = Inr t'"
  shows "dir_entries_ok t'"
proof -
  have "(\<forall>t t'. dir_entries_ok t \<longrightarrow> Insert n h key value t = Inr t' \<longrightarrow> dir_entries_ok t') \<and>
        (\<forall>t t' msk bi i. dir_entries_ok t \<longrightarrow> Insert_grow n h key value msk bi i t = Inr t' \<longrightarrow>
            dir_entries_ok t')"
  proof (rule Insert_invariant)
    fix t :: "('a, 'b) table" and a
    assume "dir_entries_ok t" "a < length (heap t)"
    then show "dir_entries_ok (t\<lparr>heap := (heap t)[a := snd (Bucket_Insert (heap t ! a) key value)]\<rparr>)"
      by (auto simp: dir_entries_ok_def nth_list_update split: option.splits)
  next
    fix t :: "('a, 'b) table" and a
    assume I: "dir_entries_ok t" and al: "a < length (heap t)"
    show "dir_entries_ok (grow_directory t a)"
      unfolding dir_entries_ok_def
    proof (intro allI impI)
      fix j assume "j < length (dir (grow_directory t a))"
      then have e: "dir (grow_directory t a) ! j = (if j < length (dir t) then dir t ! j else None)"
        by (simp add: grow_directory_def nth_resize_cases)
      show "case dir (grow_directory t a) ! j of None \<Rightarrow> True
            | Some y \<Rightarrow> y < length (heap (grow_directory t a)) \<and>
                b_depth (heap (grow_directory t a) ! y) \<le> global_depth (grow_directory t a)"
      proof (cases "j < length (dir t)")
        case False
        then show ?thesis using e by simp
      next
        case True
        then have "dir (grow_directory t a) ! j = dir t ! j" using e by simp
        then show ?thesis using I True al
          by (auto simp: dir_entries_ok_def grow_directory_def nth_list_update IncrementDepth_def
              split: option.splits)
      qed
    qed
  next
    fix t t' :: "('a, 'b) table" and bi a
    assume I: "dir_entries_ok t" and a: "at_slot t bi = Inr a"
      and ne: "b_depth (heap t ! a) \<noteq> global_depth t" and r: "split_below h t bi a = Inr t'"
    have "b_depth (heap t ! a) \<le> global_depth t" using I a by (rule dir_entries_ok_at_slot)
    then have lt: "b_depth (heap t ! a) < global_depth t" using ne by simp
    from split_below_Inr [OF a r] obtain w where
      w: "w < length (dir t)" and g: "global_depth t' = global_depth t"
      and d: "dir t' = (dir t)[w := Some (length (heap t))]"
      and l: "length (heap t') = Suc (length (heap t))"
      and o: "\<forall>y < length (heap t). b_depth (heap t' ! y) =
               (if y = a then Suc (b_depth (heap t ! a)) else b_depth (heap t ! y))"
      and n: "b_depth (heap t' ! length (heap t)) = Suc (b_depth (heap t ! a))"
      by auto
    show "dir_entries_ok t'"
      using I w g d l
    proof (rule dir_entries_ok_split)
      show "\<forall>y < length (heap t). b_depth (heap t ! y) \<le> global_depth t \<longrightarrow>
               b_depth (heap t' ! y) \<le> global_depth t"
        using o lt by simp
      show "b_depth (heap t' ! length (heap t)) \<le> global_depth t" using n lt by simp
    qed
  next
    fix t t' :: "('a, 'b) table" and bi a
    assume I: "dir_entries_ok t" and a: "at_slot t bi = Inr a"
      and r: "split_grown h t bi a = Inr t'"
    have le: "b_depth (heap t ! a) \<le> global_depth t" using I a by (rule dir_entries_ok_at_slot)
    from split_grown_Inr [OF a r] obtain w where
      w: "w < length (dir t)" and g: "global_depth t' = global_depth t"
      and d: "dir t' = (dir t)[w := Some (length (heap t))]"
      and l: "length (heap t') = Suc (length (heap t))"
      and o: "\<forall>y < length (heap t). b_depth (heap t' ! y) = b_depth (heap t ! y)"
      and n: "b_depth (heap t' ! length (heap t)) = b_depth (heap t ! a)"
      by auto
    show "dir_entries_ok t'"
      using I w g d l
    proof (rule dir_entries_ok_split)
      show "\<forall>y < length (heap t). b_depth (heap t ! y) \<le> global_depth t \<longrightarrow>
               b_depth (heap t' ! y) \<le> global_depth t"
        using o by simp
      show "b_depth (heap t' ! length (heap t)) \<le> global_depth t" using n le by simp
    qed
  next
    fix t :: "('a, 'b) table" and i j
    assume I: "dir_entries_ok t" and i: "i < length (dir t)" and j: "j \<le> i"
    show "dir_entries_ok (t\<lparr>dir := (dir t)[i := dir t ! j]\<rparr>)"
      unfolding dir_entries_ok_def
    proof (intro allI impI)
      fix k assume "k < length (dir (t\<lparr>dir := (dir t)[i := dir t ! j]\<rparr>))"
      then have k: "k < length (dir t)" by simp
      have jl: "j < length (dir t)" using i j by simp
      have "dir (t\<lparr>dir := (dir t)[i := dir t ! j]\<rparr>) ! k = dir t ! (if k = i then j else k)"
        using i by (simp add: nth_list_update)
      moreover have "case dir t ! (if k = i then j else k) of None \<Rightarrow> True
            | Some a \<Rightarrow> a < length (heap t) \<and> b_depth (heap t ! a) \<le> global_depth t"
        using I k jl by (simp add: dir_entries_ok_def)
      ultimately show "case dir (t\<lparr>dir := (dir t)[i := dir t ! j]\<rparr>) ! k of None \<Rightarrow> True
            | Some a \<Rightarrow> a < length (heap (t\<lparr>dir := (dir t)[i := dir t ! j]\<rparr>)) \<and>
                b_depth (heap (t\<lparr>dir := (dir t)[i := dir t ! j]\<rparr>) ! a)
                  \<le> global_depth (t\<lparr>dir := (dir t)[i := dir t ! j]\<rparr>)"
        by (auto split: option.splits if_splits)
    qed
  qed
  then show ?thesis using assms by blast
qed


text \<open>The empty slots through the steps of the loop.\<close>

lemma loop_none_grow:
  assumes len: "length (dir t) = 2 ^ global_depth t"
  shows "loop_none (\<lambda>y. dir t ! y = None) x (global_depth t) (2 ^ global_depth t) (grow_directory t a)"
  unfolding loop_none_def
proof (intro allI impI)
  fix j assume j: "j < length (dir (grow_directory t a))"
    and n: "dir (grow_directory t a) ! j = None"
  let ?gd = "global_depth t"
  have e: "dir (grow_directory t a) ! j = (if j < length (dir t) then dir t ! j else None)"
    using j by (simp add: grow_directory_def nth_resize_cases)
  show "dir t ! take_bit ?gd j = None \<or>
        (2 ^ ?gd \<le> j \<and> (2 ^ ?gd \<le> take_bit ?gd x + 2 ^ ?gd \<or>
           take_bit ?gd x + 2 ^ ?gd < take_bit (?gd + 1) j))"
  proof (cases "j < 2 ^ ?gd")
    case True
    then have "take_bit ?gd j = j" by (simp add: take_bit_nat_eq_self)
    then show ?thesis using e n True len by simp
  next
    case False
    then show ?thesis by simp
  qed
qed

lemma loop_none_exit:
  assumes "loop_none q x g0 i t" and "\<not> i < length (dir t)"
  shows "\<forall>j < length (dir t). dir t ! j = None \<longrightarrow> q (take_bit g0 j)"
  using assms unfolding loop_none_def by (meson leD le_less_trans not_le_imp_less)

lemma loop_none_copy:
  assumes ln: "loop_none q x g0 i t" and i0: "2 ^ g0 \<le> i" and il: "i < length (dir t)"
    and ne: "take_bit g0 i \<noteq> take_bit g0 x"
  shows "loop_none q x g0 (i + 1) (t\<lparr>dir := (dir t)[i := dir t ! take_bit g0 i]\<rparr>)"
  unfolding loop_none_def
proof (intro allI impI)
  let ?tc = "t\<lparr>dir := (dir t)[i := dir t ! take_bit g0 i]\<rparr>"
  let ?i0 = "take_bit g0 x + 2 ^ g0"
  fix j assume "j < length (dir ?tc)" and n: "dir ?tc ! j = None"
  then have jl: "j < length (dir t)" by simp
  have lo: "take_bit g0 i < 2 ^ g0" by simp
  show "q (take_bit g0 j) \<or> (i + 1 \<le> j \<and> (i + 1 \<le> ?i0 \<or> ?i0 < take_bit (g0 + 1) j))"
  proof (cases "j = i")
    case True
    then have "dir t ! take_bit g0 i = None" using n il by simp
    moreover have "take_bit g0 i < length (dir t)" using lo i0 il by linarith
    moreover have "\<not> i \<le> take_bit g0 i" using lo i0 by linarith
    ultimately have "q (take_bit g0 (take_bit g0 i))"
      using ln unfolding loop_none_def by blast
    then show ?thesis using True by simp
  next
    case False
    then have "dir t ! j = None" using n by simp
    then have c: "q (take_bit g0 j) \<or> (i \<le> j \<and> (i \<le> ?i0 \<or> ?i0 < take_bit (g0 + 1) j))"
      using ln jl unfolding loop_none_def by blast
    have "i \<noteq> ?i0"
    proof
      assume "i = ?i0"
      then have "take_bit g0 i = take_bit g0 x" by (simp add: take_bit_add_exp)
      then show False using ne by simp
    qed
    then show ?thesis using c False by auto
  qed
qed

lemma take_bit_Suc_le:
  "take_bit (n + 1) (i::nat) \<le> take_bit n i + 2 ^ n"
  using take_bit_Suc_cases [of n i] by auto

lemma loop_none_split:
  assumes ln: "loop_none q x g0 i t"
    and eq: "take_bit g0 i = take_bit g0 x"
    and ige: "take_bit g0 x + 2 ^ g0 \<le> i"
    and d: "dir t2 = (dir t)[w := Some s]" and w: "w < length (dir t)"
    and p1: "i \<le> take_bit g0 x + 2 ^ g0 \<Longrightarrow> w = i \<and> global_depth t2 = g0 + 1"
    and g: "g0 < global_depth t2" and len: "length (dir t2) = 2 ^ global_depth t2"
    and nf: "none_from t2 t3"
  shows "loop_none q x g0 (i + 1) t3"
  unfolding loop_none_def
proof (intro allI impI)
  let ?i0 = "take_bit g0 x + 2 ^ g0"
  let ?G = "global_depth t2"
  fix j assume j: "j < length (dir t3)" and n: "dir t3 ! j = None"
  let ?j' = "take_bit ?G j"
  have n2: "dir t2 ! ?j' = None" using nf j n unfolding none_from_def by blast
  have jl: "?j' < length (dir t)" using len d by simp
  have jw: "?j' \<noteq> w"
  proof
    assume "?j' = w"
    then have "dir t2 ! ?j' = Some s" using d w by simp
    then show False using n2 by simp
  qed
  then have "dir t ! ?j' = None" using n2 d by simp
  then have c: "q (take_bit g0 ?j') \<or> (i \<le> ?j' \<and> (i \<le> ?i0 \<or> ?i0 < take_bit (g0 + 1) ?j'))"
    using ln jl unfolding loop_none_def by blast
  have t0: "take_bit g0 ?j' = take_bit g0 j" using g by (simp add: min_def)
  have t1: "take_bit (g0 + 1) ?j' = take_bit (g0 + 1) j" using g by (simp add: min_def)
  have le: "?j' \<le> j" by (rule take_bit_nat_less_eq_self)
  show "q (take_bit g0 j) \<or> (i + 1 \<le> j \<and> (i + 1 \<le> ?i0 \<or> ?i0 < take_bit (g0 + 1) j))"
  proof (cases "q (take_bit g0 j)")
    case True
    then show ?thesis by simp
  next
    case False
    then have ij: "i \<le> ?j'" and ph: "i \<le> ?i0 \<or> ?i0 < take_bit (g0 + 1) ?j'"
      using c t0 by auto
    have "i < ?j' \<and> ?i0 < take_bit (g0 + 1) j"
    proof (cases "i \<le> ?i0")
      case True
      then have wi: "w = i" and G: "?G = g0 + 1" using p1 by auto
      have "i < ?j'" using ij jw wi by simp
      moreover have "?i0 = i" using True ige by simp
      ultimately show ?thesis using G by simp
    next
      case False
      then have b: "?i0 < take_bit (g0 + 1) ?j'" using ph by simp
      have "take_bit (g0 + 1) i \<le> ?i0" using take_bit_Suc_le [of g0 i] eq by simp
      then have "?j' \<noteq> i" using b by auto
      then show ?thesis using ij b t1 by simp
    qed
    then have "i + 1 \<le> j" and "?i0 < take_bit (g0 + 1) j" using le by linarith+
    then show ?thesis by blast
  qed
qed

lemma none_from_refl: "length (dir t) = 2 ^ global_depth t \<Longrightarrow> none_from t t"
  by (simp add: none_from_def take_bit_nat_eq_self)

lemma none_from_same_dir:
  "length (dir t) = 2 ^ global_depth t \<Longrightarrow> dir t' = dir t \<Longrightarrow> none_from t t'"
  by (simp add: none_from_def take_bit_nat_eq_self)

lemma none_from_write:
  assumes nf: "none_from t3 t'" and d: "dir t3 = (dir t)[w := Some s]" and w: "w < length (dir t)"
    and g: "global_depth t3 = global_depth t"
  shows "none_from t t'"
  unfolding none_from_def
proof (intro allI impI)
  fix j assume "j < length (dir t')" and "dir t' ! j = None"
  then have n3: "dir t3 ! take_bit (global_depth t) j = None"
    using nf g unfolding none_from_def by auto
  have "take_bit (global_depth t) j \<noteq> w"
  proof
    assume "take_bit (global_depth t) j = w"
    then have "dir t3 ! take_bit (global_depth t) j = Some s" using d w by simp
    then show False using n3 by simp
  qed
  then show "dir t ! take_bit (global_depth t) j = None" using n3 d by simp
qed


text \<open>
  By induction on the fuel: \<open>Insert\<close> leaves no slot empty that does not have the low bits of a
  slot that was empty before. On a well-formed table there is none, so the table that
  \<open>Insert\<close> returns is well formed, and so is every reachable table.
\<close>

lemma Insert_none_from_aux:
  "(\<forall>t t'. key_slots_ok (h key) t \<longrightarrow> Insert n h key value t = Inr t' \<longrightarrow> none_from t t') \<and>
   (\<forall>t t' g0 i q. loop_inv (h key) g0 i t \<longrightarrow> loop_none q (h key) g0 i t \<longrightarrow>
        Insert_grow n h key value (2 ^ g0 - 1) (take_bit g0 (h key)) i t = Inr t' \<longrightarrow>
        (\<forall>j < length (dir t'). dir t' ! j = None \<longrightarrow> q (take_bit g0 j)))"
proof (induction n)
  case 0
  show ?case by simp
next
  case (Suc n)
  note IH1 = Suc [THEN conjunct1, rule_format]
  note IH2 = Suc [THEN conjunct2, rule_format]
  let ?x = "h key"
  have A: "none_from t t'"
    if ks: "key_slots_ok ?x t" and run: "Insert (Suc n) h key value t = Inr t'"
    for t t'
  proof -
    let ?gd = "global_depth t"
    let ?bi = "take_bit ?gd ?x"
    have gd: "?gd < 31" and len: "length (dir t) = 2 ^ ?gd"
      using ks by (simp_all add: key_slots_ok_def)
    have bi: "IndexOf h t key = Inr ?bi" using gd by (rule IndexOf_eq)
    have "slot_ok t ?bi" using ks by (simp add: key_slots_ok_def)
    then obtain a where a: "at_slot t ?bi = Inr a" and dle: "b_depth (heap t ! a) \<le> ?gd"
      by (auto simp: slot_ok_iff)
    let ?b = "heap t ! a"
    have unf: "Inr t' =
       (if fst (Bucket_Find ?b key value) then Inr t
        else if \<not> IsFull ?b then
          Inr (t\<lparr>heap := (heap t)[a := snd (Bucket_Insert ?b key value)]\<rparr>)
        else if b_depth ?b = ?gd then
          (if ?gd + 1 = 31 then Inl LengthError
           else Insert_grow n h key value (2 ^ ?gd - 1) ?bi (2 ^ ?gd) (grow_directory t a))
        else
          (case split_below h t ?bi a of
             Inl e \<Rightarrow> Inl e
           | Inr t3 \<Rightarrow> Insert n h key value t3))"
      by (simp only: run [symmetric] Insert_Suc bi a sum.case push_bit_of_1)
    consider (found) "fst (Bucket_Find ?b key value)"
      | (room) "\<not> fst (Bucket_Find ?b key value)" "\<not> IsFull ?b"
      | (grows) "\<not> fst (Bucket_Find ?b key value)" "IsFull ?b" "b_depth ?b = ?gd"
      | (splits) "\<not> fst (Bucket_Find ?b key value)" "IsFull ?b" "b_depth ?b \<noteq> ?gd"
      by blast
    then show ?thesis
    proof cases
      case found
      then have "t' = t" using unf by simp
      then show ?thesis using len by (simp add: none_from_refl)
    next
      case room
      then have "dir t' = dir t" using unf by simp
      then show ?thesis using len by (simp add: none_from_same_dir)
    next
      case grows
      show ?thesis
      proof (cases "?gd + 1 = 31")
        case True
        then show ?thesis using unf grows by simp
      next
        case False
        then have lt: "?gd < 30" using gd by simp
        let ?tg = "grow_directory t a"
        have r: "Insert_grow n h key value (2 ^ ?gd - 1) ?bi (2 ^ ?gd) ?tg = Inr t'"
          using unf grows False by simp
        note G = grow_directory_loop_inv [OF ks a grows(3) lt]
        have "loop_none (\<lambda>y. dir t ! y = None) ?x ?gd (2 ^ ?gd) ?tg"
          using len by (rule loop_none_grow)
        then have "\<forall>j < length (dir t'). dir t' ! j = None \<longrightarrow> dir t ! take_bit ?gd j = None"
          using IH2 [OF G(1) _ r] by blast
        then show ?thesis by (simp add: none_from_def)
      qed
    next
      case splits
      then have dl: "b_depth ?b < ?gd" using dle by simp
      from split_below_keeps_key_slots [OF ks a dl, of h] obtain t3 where
        t3: "split_below h t ?bi a = Inr t3" and ks3: "key_slots_ok ?x t3"
        and g3: "global_depth t3 = ?gd"
        by blast
      have r: "Insert n h key value t3 = Inr t'" using unf splits t3 by simp
      have nf: "none_from t3 t'" using ks3 r by (rule IH1)
      from split_below_Inr [OF a t3] obtain w where
        w: "w < length (dir t)" and d: "dir t3 = (dir t)[w := Some (length (heap t))]"
        by auto
      show ?thesis using nf d w g3 by (rule none_from_write)
    qed
  qed
  have B: "\<forall>j < length (dir t'). dir t' ! j = None \<longrightarrow> q (take_bit g0 j)"
    if li: "loop_inv ?x g0 i t" and ln: "loop_none q ?x g0 i t"
      and run: "Insert_grow (Suc n) h key value (2 ^ g0 - 1) (take_bit g0 ?x) i t = Inr t'"
    for t t' g0 i q
  proof (cases "i < length (dir t)")
    case False
    then have "t' = t" using run by (simp add: Insert_grow_Suc)
    then show ?thesis using loop_none_exit [OF ln False] by simp
  next
    case il: True
    have msk: "i AND (2 ^ g0 - 1) = take_bit g0 i" by (rule and_low_bits)
    have i0: "2 ^ g0 \<le> i" using li by (simp add: loop_inv_def)
    show ?thesis
    proof (cases "take_bit g0 i = take_bit g0 ?x")
      case False
      let ?tc = "t\<lparr>dir := (dir t)[i := dir t ! take_bit g0 i]\<rparr>"
      have r: "Insert_grow n h key value (2 ^ g0 - 1) (take_bit g0 ?x) (i + 1) ?tc = Inr t'"
        using run il False by (simp add: Insert_grow_Suc msk and_low_bits_Suc)
      note C = loop_inv_copy [OF li il False]
      have "loop_none q ?x g0 (i + 1) ?tc" using ln i0 il False by (rule loop_none_copy)
      then show ?thesis using IH2 [OF C(1) _ r] by blast
    next
      case eq: True
      from loop_inv_split [OF li il eq, of h] obtain a t2 where
        a: "at_slot t (take_bit g0 ?x) = Inr a" and t2: "split_grown h t (take_bit g0 ?x) a = Inr t2"
        and ks2: "key_slots_ok ?x t2" and g2: "global_depth t2 = global_depth t"
        and d2: "g0 + 1 \<le> slot_depth t2 (take_bit g0 ?x)"
        and ige: "take_bit g0 ?x + 2 ^ g0 \<le> i"
        by blast
      have g0: "g0 < global_depth t" using li by (simp add: loop_inv_def)
      have e: "Inr t' = (case Insert n h key value t2 of
                      Inl e \<Rightarrow> Inl e
                    | Inr t3 \<Rightarrow> Insert_grow n h key value (2 ^ g0 - 1) (take_bit g0 ?x) (i + 1) t3)"
        using run il eq a t2 by (auto simp: Insert_grow_Suc msk and_low_bits_Suc split: sum.splits)
      then obtain t3 where t3: "Insert n h key value t2 = Inr t3"
        and r: "Insert_grow n h key value (2 ^ g0 - 1) (take_bit g0 ?x) (i + 1) t3 = Inr t'"
        by (cases "Insert n h key value t2") simp_all
      have "returns_or_throws ?x t2 (global_depth t2) (Inr t3)"
        using Insert_returns_or_throws_aux [THEN conjunct1, rule_format, OF ks2 t3] by simp
      then have ks3: "key_slots_ok ?x t3" and g3: "global_depth t2 \<le> global_depth t3"
        and m3: "\<forall>g \<le> global_depth t2. slot_depth t2 (take_bit g ?x) \<le> slot_depth t3 (take_bit g ?x)"
        by (auto simp: returns_or_throws_def)
      have "g0 \<le> global_depth t2" using g0 g2 by simp
      then have "slot_depth t2 (take_bit g0 ?x) \<le> slot_depth t3 (take_bit g0 ?x)"
        using m3 by blast
      then have d3: "g0 + 1 \<le> slot_depth t3 (take_bit g0 ?x)"
        using d2 by linarith
      have g03: "g0 < global_depth t3" using g0 g2 g3 by simp
      have li3: "loop_inv ?x g0 (i + 1) t3" using ks3 g03 d3 ige by (rule loop_inv_next)
      have nf: "none_from t2 t3" using ks2 t3 by (rule IH1)
      from split_grown_Inr [OF a t2] have
        w: "(take_bit g0 ?x OR 2 ^ (b_depth (heap t ! a) - 1)) < length (dir t)"
        and d: "dir t2 = (dir t)[(take_bit g0 ?x OR 2 ^ (b_depth (heap t ! a) - 1)) := Some (length (heap t))]"
        by auto
      have len2: "length (dir t2) = 2 ^ global_depth t2" using ks2 by (simp add: key_slots_ok_def)
      have g02: "g0 < global_depth t2" using g0 g2 by simp
      have p1: "(take_bit g0 ?x OR 2 ^ (b_depth (heap t ! a) - 1)) = i \<and> global_depth t2 = g0 + 1"
        if ph: "i \<le> take_bit g0 ?x + 2 ^ g0"
      proof -
        have "global_depth t = g0 + 1" and "slot_depth t (take_bit g0 ?x) = g0 + 1"
          using li ph by (simp_all add: loop_inv_def)
        then have gd: "global_depth t = g0 + 1" and da: "b_depth (heap t ! a) = g0 + 1"
          using slot_depth_Inr [OF a] by simp_all
        have "take_bit g0 ?x OR 2 ^ g0 = take_bit g0 ?x + 2 ^ g0"
          by (rule or_exp_add) simp
        moreover have "i = take_bit g0 ?x + 2 ^ g0" using ph ige by simp
        ultimately show ?thesis using gd da g2 by simp
      qed
      have ln3: "loop_none q ?x g0 (i + 1) t3"
        using ln eq ige d w p1 g02 len2 nf by (rule loop_none_split)
      show ?thesis by (intro allI impI) (rule IH2 [OF li3 ln3 r])
    qed
  qed
  show ?case using A B by blast
qed

lemma Insert_well_formed:
  assumes w: "well_formed t" and r: "Insert n h key value t = Inr t'"
  shows "well_formed t'"
proof -
  have len: "length (dir t) = 2 ^ global_depth t" using w by (simp add: well_formed_def)
  have dk: "dir_ok t" using w by (simp add: well_formed_def dir_ok_def)
  have "dir_entries_ok t"
    using w by (auto simp: well_formed_def dir_entries_ok_def slot_ok_iff at_slot_iff)
  then have de: "dir_entries_ok t'" using r by (rule dir_entries_ok_Insert)
  have dk': "dir_ok t'" using dk r by (rule dir_ok_Insert)
  have ks: "key_slots_ok (h key) t" using w by (rule well_formed_key_slots)
  have nf: "none_from t t'"
    using Insert_none_from_aux [THEN conjunct1, rule_format, OF ks r] .
  have "slot_ok t' j" if j: "j < length (dir t')" for j
  proof -
    have tl: "take_bit (global_depth t) j < length (dir t)" using len by simp
    then have "slot_ok t (take_bit (global_depth t) j)" using w by (simp add: well_formed_def)
    then have "dir t ! take_bit (global_depth t) j \<noteq> None"
      by (auto simp: slot_ok_iff at_slot_iff)
    then have "dir t' ! j \<noteq> None" using nf j by (auto simp: none_from_def)
    then obtain a where a: "dir t' ! j = Some a" by auto
    then have "a < length (heap t') \<and> b_depth (heap t' ! a) \<le> global_depth t'"
      using de j by (auto simp: dir_entries_ok_def split: option.splits)
    then show ?thesis using a j by (simp add: slot_ok_iff at_slot_iff)
  qed
  then show ?thesis using dk' by (simp add: well_formed_def dir_ok_def)
qed

lemma reachable_well_formed: "reachable h t \<Longrightarrow> well_formed t"
proof (induction rule: reachable.induct)
  case (reachable_new n)
  show ?case
    by (simp add: well_formed_def slot_ok_def at_slot_def ExtendibleHashTable_def Bucket_def)
next
  case (reachable_Insert t fuel key v t')
  from this(3) this(2) show ?case by (rule Insert_well_formed)
next
  case (reachable_Remove t key r t')
  from Remove_Inr [OF reachable_Remove(2)] obtain a where
    al: "a < length (heap t)"
    and t': "t' = t\<lparr>heap := (heap t)[a := snd (Bucket_Remove (heap t ! a) key)]\<rparr>"
    by blast
  have "\<forall>y < length (heap t). b_depth (heap t' ! y) = b_depth (heap t ! y)"
    using t' al by (auto simp: nth_list_update)
  then have "slot_ok t' j = slot_ok t j" for j
    using t' by (intro same_slots) simp_all
  then show ?case using reachable_Remove(3) t' by (simp add: well_formed_def)
qed

section \<open>A key that agrees with a resident key on the low 31 bits\<close>



section \<open>The end of Insert\<close>




end
